theory Spec2Isabelle
  imports Complex_Main
begin

section \<open>Text primitives\<close>

text \<open>
  Python strings are modelled as \<open>string\<close>. The model covers ASCII text: a
  character is classified and case-folded as Python does for code points below 128.
\<close>

definition is_upper :: "char \<Rightarrow> bool" where
  "is_upper c = (let n = (of_char c :: nat) in 65 \<le> n \<and> n \<le> 90)"

definition is_lower :: "char \<Rightarrow> bool" where
  "is_lower c = (let n = (of_char c :: nat) in 97 \<le> n \<and> n \<le> 122)"

definition is_alpha :: "char \<Rightarrow> bool" where
  "is_alpha c = (is_upper c \<or> is_lower c)"

text \<open>\<open>str.isspace\<close> and the regular expression class \<open>\s\<close> on ASCII: tab, line feed,
  vertical tab, form feed, carriage return, the separators 28 to 31, and the space.\<close>

definition is_space :: "char \<Rightarrow> bool" where
  "is_space c = (let n = (of_char c :: nat) in (9 \<le> n \<and> n \<le> 13) \<or> (28 \<le> n \<and> n \<le> 32))"

text \<open>The lower-case form of an upper-case ASCII letter is 32 code points above it:
  the same character with bit 5 set.\<close>

definition lower_chr :: "char \<Rightarrow> char" where
  "lower_chr c =
     (if is_upper c
      then (case c of Char b0 b1 b2 b3 b4 b5 b6 b7 \<Rightarrow> Char b0 b1 b2 b3 b4 True b6 b7)
      else c)"

text \<open>\<open>str.lower()\<close>.\<close>

definition lower :: "string \<Rightarrow> string" where
  "lower s = map lower_chr s"

text \<open>A literal character of a pattern compiled with \<open>re.IGNORECASE\<close>.\<close>

definition ci_eq :: "char \<Rightarrow> char \<Rightarrow> bool" where
  "ci_eq a b = (lower_chr a = lower_chr b)"

text \<open>\<open>re.compile(re.escape(p), re.IGNORECASE)\<close> matched at the start of the text:
  the pattern is a literal, compared character by character without regard to case.\<close>

fun ci_prefix :: "string \<Rightarrow> string \<Rightarrow> bool" where
  "ci_prefix [] t = True"
| "ci_prefix (p # ps) [] = False"
| "ci_prefix (p # ps) (c # cs) = (ci_eq p c \<and> ci_prefix ps cs)"

text \<open>\<open>pattern.search(text)\<close> for such a pattern: the start of the leftmost match,
  or \<open>None\<close>. The match ends \<open>length p\<close> characters later.\<close>

fun re_search_ci :: "string \<Rightarrow> string \<Rightarrow> nat option" where
  "re_search_ci p [] = (if ci_prefix p [] then Some 0 else None)"
| "re_search_ci p (c # cs) =
     (if ci_prefix p (c # cs) then Some 0 else map_option Suc (re_search_ci p cs))"

section \<open>Mention linker (update\_meeting.py)\<close>

text \<open>A rich text object \<open>{"type": "text", "text": {"content": c, "link": {"url": u}}}\<close>;
  the link is absent in a plain part.\<close>

record rich_text =
  content :: string
  link :: "string option"

definition plain :: "string \<Rightarrow> rich_text" where
  "plain s = \<lparr>content = s, link = None\<rparr>"

text \<open>The dictionary \<open>earliest_match\<close>. The field \<open>m_entity\<close> is the person name in
  \<open>create_rich_text_with_people_links\<close> and the entity in
  \<open>create_rich_text_with_entity_links\<close>.\<close>

record 'e earliest =
  m_entity :: 'e
  m_start :: nat
  m_end :: nat
  matched_text :: string

text \<open>The inner \<open>for\<close> loop over the variations, in their sorted order, carrying
  \<open>earliest_match\<close> and \<open>earliest_pos\<close>.\<close>

fun scan_variations ::
  "(string \<times> 'e) list \<Rightarrow> string \<Rightarrow> 'e earliest option \<Rightarrow> nat \<Rightarrow> 'e earliest option" where
  "scan_variations [] remaining em ep = em"
| "scan_variations ((v, e) # vs) remaining em ep =
     (case re_search_ci v remaining of
        Some s \<Rightarrow>
          if s < ep
          then scan_variations vs remaining
                 (Some \<lparr>m_entity = e, m_start = s, m_end = s + length v,
                        matched_text = take (length v) (drop s remaining)\<rparr>) s
          else scan_variations vs remaining em ep
      | None \<Rightarrow> scan_variations vs remaining em ep)"

definition find_earliest :: "(string \<times> 'e) list \<Rightarrow> string \<Rightarrow> 'e earliest option" where
  "find_earliest vs remaining = scan_variations vs remaining None (length remaining)"

text \<open>The parts appended for one winning match: the text before it when there is any,
  then the matched text, linked when the link lookup found a page.\<close>

definition match_parts :: "('e \<Rightarrow> string option) \<Rightarrow> string \<Rightarrow> 'e earliest \<Rightarrow> rich_text list" where
  "match_parts get_link remaining m =
     (if m_start m > 0 then [plain (take (m_start m) remaining)] else []) @
     [case get_link (m_entity m) of
        Some url \<Rightarrow> \<lparr>content = matched_text m, link = Some url\<rparr>
      | None \<Rightarrow> \<lparr>content = matched_text m, link = None\<rparr>]"

text \<open>The \<open>while remaining_text\<close> loop. It need not end: the result is \<open>None\<close> when
  the loop runs forever.\<close>

partial_function (option) link_loop ::
  "('e \<Rightarrow> string option) \<Rightarrow> (string \<times> 'e) list \<Rightarrow> string \<Rightarrow> rich_text list
     \<Rightarrow> rich_text list option" where
  "link_loop get_link vs remaining parts =
     (if remaining = [] then Some parts
      else case find_earliest vs remaining of
             Some m \<Rightarrow>
               link_loop get_link vs (drop (m_end m) remaining)
                 (parts @ match_parts get_link remaining m)
           | None \<Rightarrow> Some (parts @ [plain remaining]))"

declare link_loop.simps [code]

text \<open>\<open>xs.sort(key=len, reverse=True)\<close>: a stable sort, longest first.\<close>

definition sort_longest_first :: "('a \<Rightarrow> string) \<Rightarrow> 'a list \<Rightarrow> 'a list" where
  "sort_longest_first txt xs = sort_key (\<lambda>x. - int (length (txt x))) xs"

text \<open>What the linker reads from its surroundings: the three environment variables, the
  names returned by \<open>get_all_people_names()\<close> and \<open>get_all_project_names()\<close>, and the
  page links returned by \<open>get_person_link\<close> and \<open>get_project_link\<close>.\<close>

record linker_env =
  notion_token :: "string option"
  people_db_id :: "string option"
  projects_db_id :: "string option"
  people_names :: "string list"
  project_names :: "string list"
  person_link :: "string \<Rightarrow> string option"
  project_link :: "string \<Rightarrow> string option"

text \<open>Python truth of an environment variable: set and not empty.\<close>

definition is_set :: "string option \<Rightarrow> bool" where
  "is_set v = (case v of None \<Rightarrow> False | Some s \<Rightarrow> s \<noteq> [])"

definition create_rich_text_with_people_links :: "linker_env \<Rightarrow> string \<Rightarrow> rich_text list option" where
  "create_rich_text_with_people_links env text =
     (if \<not> is_set (notion_token env) \<or> \<not> is_set (people_db_id env) then Some [plain text]
      else if people_names env = [] then Some [plain text]
      else link_loop (person_link env)
             (sort_longest_first fst (map (\<lambda>n. (n, n)) (people_names env))) text [])"

datatype entity_type = Person | Project

record entity =
  e_name :: string
  e_type :: entity_type
  variations :: "string list"

definition person_entity :: "string \<Rightarrow> entity" where
  "person_entity name =
     \<lparr>e_name = name, e_type = Person, variations = [name, name @ '' project'']\<rparr>"

definition project_entity :: "string \<Rightarrow> entity" where
  "project_entity name =
     \<lparr>e_name = name, e_type = Project,
      variations = [name, name @ '' project'', ''the '' @ name @ '' project'']\<rparr>"

definition get_entities :: "linker_env \<Rightarrow> entity list" where
  "get_entities env =
     (if is_set (people_db_id env) then map person_entity (people_names env) else []) @
     (if is_set (projects_db_id env) then map project_entity (project_names env) else [])"

definition all_variations :: "entity list \<Rightarrow> (string \<times> entity) list" where
  "all_variations entities = concat (map (\<lambda>e. map (\<lambda>v. (v, e)) (variations e)) entities)"

definition entity_link :: "linker_env \<Rightarrow> entity \<Rightarrow> string option" where
  "entity_link env e =
     (case e_type e of Person \<Rightarrow> person_link env (e_name e)
                     | Project \<Rightarrow> project_link env (e_name e))"

definition create_rich_text_with_entity_links :: "linker_env \<Rightarrow> string \<Rightarrow> rich_text list option" where
  "create_rich_text_with_entity_links env text =
     (if \<not> is_set (notion_token env) then Some [plain text]
      else if get_entities env = [] then Some [plain text]
      else link_loop (entity_link env)
             (sort_longest_first fst (all_variations (get_entities env))) text [])"

text \<open>The text a sequence of parts spells.\<close>

definition parts_text :: "rich_text list \<Rightarrow> string" where
  "parts_text parts = concat (map content parts)"


subsection \<open>Specification-side notions for the linker\<close>

text \<open>The record that the scan builds for the variation \<open>ve\<close> found at offset \<open>s\<close>.\<close>

definition match_at :: "string \<times> 'e \<Rightarrow> string \<Rightarrow> nat \<Rightarrow> 'e earliest" where
  "match_at ve remaining s =
     \<lparr>m_entity = snd ve, m_start = s, m_end = s + length (fst ve),
      matched_text = take (length (fst ve)) (drop s remaining)\<rparr>"

text \<open>Variation number \<open>i\<close> of the list wins at offset \<open>s\<close>: its leftmost match starts at
  \<open>s\<close>, no variation matches further left, and no variation earlier in the list matches
  at \<open>s\<close>. The bound \<open>ep\<close> is the value of \<open>earliest_pos\<close> that the match has to beat.\<close>

definition wins_below :: "(string \<times> 'e) list \<Rightarrow> string \<Rightarrow> nat \<Rightarrow> nat \<Rightarrow> nat \<Rightarrow> bool" where
  "wins_below vs remaining ep i s =
     (i < length vs \<and> re_search_ci (fst (vs ! i)) remaining = Some s \<and> s < ep \<and>
      (\<forall>j < length vs. \<forall>t. re_search_ci (fst (vs ! j)) remaining = Some t \<longrightarrow>
          s \<le> t \<and> (t = s \<longrightarrow> i \<le> j)))"

definition wins :: "(string \<times> 'e) list \<Rightarrow> string \<Rightarrow> nat \<Rightarrow> nat \<Rightarrow> bool" where
  "wins vs remaining i s =
     (i < length vs \<and> re_search_ci (fst (vs ! i)) remaining = Some s \<and>
      (\<forall>j < length vs. \<forall>t. re_search_ci (fst (vs ! j)) remaining = Some t \<longrightarrow>
          s \<le> t \<and> (t = s \<longrightarrow> i \<le> j)))"

text \<open>The record \<open>m\<close> describes a match of one of the variations in the remaining text.\<close>

definition match_of :: "(string \<times> 'e) list \<Rightarrow> string \<Rightarrow> 'e earliest \<Rightarrow> bool" where
  "match_of vs remaining m =
     (\<exists>(v, e) \<in> set vs. re_search_ci v remaining = Some (m_start m) \<and> m_entity m = e \<and>
        m_end m = m_start m + length v \<and>
        matched_text m = take (length v) (drop (m_start m) remaining))"

text \<open>A configured environment with the given people and project names, in which every
  name has a page.\<close>

definition linker_env_of :: "string list \<Rightarrow> string list \<Rightarrow> linker_env" where
  "linker_env_of people projects =
     \<lparr>notion_token = Some ''secret'', people_db_id = Some ''people-db'',
      projects_db_id = Some ''projects-db'', people_names = people, project_names = projects,
      person_link = (\<lambda>n. Some (''person/'' @ n)), project_link = (\<lambda>n. Some (''project/'' @ n))\<rparr>"

section \<open>Name extraction (people\_manager.py)\<close>

subsection \<open>String methods\<close>

definition newline :: char where
  "newline = CHR 0x0A"

text \<open>\<open>s.strip()\<close>: white space removed at both ends.\<close>

definition strip :: "string \<Rightarrow> string" where
  "strip s = rev (dropWhile is_space (rev (dropWhile is_space s)))"

text \<open>The fields of a string between the characters that satisfy \<open>P\<close>, each such character
  a separator of its own. \<open>s.split('\n')\<close> is \<open>fields (\<lambda>c. c = newline) s\<close>.\<close>

fun fields :: "(char \<Rightarrow> bool) \<Rightarrow> string \<Rightarrow> string list" where
  "fields P [] = [[]]"
| "fields P (c # cs) =
     (if P c then [] # fields P cs
      else (case fields P cs of f # fs \<Rightarrow> (c # f) # fs | [] \<Rightarrow> [[c]]))"

text \<open>\<open>s.split()\<close>: the words between runs of white space.\<close>

definition split_ws :: "string \<Rightarrow> string list" where
  "split_ws s = filter (\<lambda>w. w \<noteq> []) (fields is_space s)"

text \<open>\<open>re.split(r'[,;&]+', s)\<close>: a run of separators separates once; the first and the
  last field are kept when they are empty.\<close>

fun re_split_runs :: "(char \<Rightarrow> bool) \<Rightarrow> bool \<Rightarrow> string \<Rightarrow> string list" where
  "re_split_runs P in_run [] = [[]]"
| "re_split_runs P in_run (c # cs) =
     (if P c then (if in_run then re_split_runs P True cs else [] # re_split_runs P True cs)
      else (case re_split_runs P False cs of f # fs \<Rightarrow> (c # f) # fs | [] \<Rightarrow> [[c]]))"

definition is_separator :: "char \<Rightarrow> bool" where
  "is_separator c = (c \<in> set '',;&'')"

subsection \<open>Regular expressions\<close>

text \<open>
  The fragment of Python's \<open>re\<close> that the extraction patterns use: a character class, the
  anchors \<open>^\<close> and \<open>$\<close>, concatenation, alternation, \<open>?\<close>, and the greedy \<open>*\<close> and \<open>+\<close> of a
  character class, with one capturing group. A pattern compiled with \<open>re.IGNORECASE\<close> is
  written with the classes it then denotes.
\<close>

datatype rx =
    Eps
  | Chr "char \<Rightarrow> bool"
  | Bol
  | Eol
  | Cat rx rx
  | Alt rx rx
  | Opt rx
  | Star "char \<Rightarrow> bool"
  | Plus "char \<Rightarrow> bool"
  | Grp rx

text \<open>A matcher state: whether the position is one where \<open>^\<close> matches, the text from the
  position on, and the text captured by the group so far.\<close>

type_synonym rx_state = "bool \<times> string \<times> string option"

text \<open>The state \<open>k\<close> characters further on; \<open>ml\<close> is the flag \<open>re.MULTILINE\<close>.\<close>

definition advance :: "bool \<Rightarrow> nat \<Rightarrow> rx_state \<Rightarrow> rx_state" where
  "advance ml k st =
     (case st of (bol, s, cap) \<Rightarrow>
        (if k = 0 then bol else ml \<and> s ! (k - 1) = newline, drop k s, cap))"

text \<open>All the ways the pattern matches from a state, in the order in which the backtracking
  matcher tries them: the first is the match that \<open>re\<close> reports.\<close>

fun rx_run :: "bool \<Rightarrow> rx \<Rightarrow> rx_state \<Rightarrow> rx_state list" where
  "rx_run ml Eps st = [st]"
| "rx_run ml (Chr P) (bol, s, cap) =
     (case s of [] \<Rightarrow> [] | c # cs \<Rightarrow> if P c then [(ml \<and> c = newline, cs, cap)] else [])"
| "rx_run ml Bol (bol, s, cap) = (if bol then [(bol, s, cap)] else [])"
| "rx_run ml Eol (bol, s, cap) =
     (if s = [] \<or> s = [newline] \<or> (ml \<and> hd s = newline) then [(bol, s, cap)] else [])"
| "rx_run ml (Cat a b) st = concat (map (rx_run ml b) (rx_run ml a st))"
| "rx_run ml (Alt a b) st = rx_run ml a st @ rx_run ml b st"
| "rx_run ml (Opt a) st = rx_run ml a st @ [st]"
| "rx_run ml (Star P) (bol, s, cap) =
     map (\<lambda>k. advance ml k (bol, s, cap)) (rev [0 ..< Suc (length (takeWhile P s))])"
| "rx_run ml (Plus P) (bol, s, cap) =
     map (\<lambda>k. advance ml k (bol, s, cap)) (rev [1 ..< Suc (length (takeWhile P s))])"
| "rx_run ml (Grp a) (bol, s, cap) =
     map (\<lambda>(bol', s', cap'). (bol', s', Some (take (length s - length s') s)))
       (rx_run ml a (bol, s, cap))"

text \<open>\<open>re.match(p, s)\<close>: the group of the first match at the start of \<open>s\<close>, if there is one.\<close>

definition re_match :: "bool \<Rightarrow> rx \<Rightarrow> string \<Rightarrow> string option option" where
  "re_match ml p s =
     (case rx_run ml p (True, s, None) of [] \<Rightarrow> None | (bol, s', cap) # rest \<Rightarrow> Some cap)"

text \<open>\<open>re.finditer(p, s)\<close>: the groups of the successive matches, left to right, each search
  starting where the previous match ended. (After an empty match the search moves on by one
  character; the patterns below never match the empty string.)\<close>

function re_finditer :: "bool \<Rightarrow> rx \<Rightarrow> bool \<Rightarrow> string \<Rightarrow> string option list" where
  "re_finditer ml p bol s =
     (case rx_run ml p (bol, s, None) of
        (bol', s', cap) # rest \<Rightarrow>
          (if length s' < length s then cap # re_finditer ml p bol' s'
           else (case s of [] \<Rightarrow> [cap]
                 | c # cs \<Rightarrow> cap # re_finditer ml p (ml \<and> c = newline) cs))
      | [] \<Rightarrow>
          (case s of [] \<Rightarrow> []
           | c # cs \<Rightarrow> re_finditer ml p (ml \<and> c = newline) cs))"
  by pat_completeness auto
termination
  by (relation "measure (\<lambda>(ml, p, bol, s). length s)") auto

subsection \<open>The patterns\<close>

text \<open>A literal character, and a literal string; \<open>ic\<close> is the flag \<open>re.IGNORECASE\<close>.\<close>

definition lit :: "bool \<Rightarrow> char \<Rightarrow> rx" where
  "lit ic c = Chr (\<lambda>x. if ic then ci_eq c x else x = c)"

fun lits :: "bool \<Rightarrow> string \<Rightarrow> rx" where
  "lits ic [] = Eps"
| "lits ic [c] = lit ic c"
| "lits ic (c # cs) = Cat (lit ic c) (lits ic cs)"

text \<open>The classes \<open>[A-Z]\<close> and \<open>[a-z]\<close>: with \<open>re.IGNORECASE\<close> each matches a letter of either
  case.\<close>

definition cls_upper :: "bool \<Rightarrow> char \<Rightarrow> bool" where
  "cls_upper ic c = (if ic then is_alpha c else is_upper c)"

definition cls_lower :: "bool \<Rightarrow> char \<Rightarrow> bool" where
  "cls_lower ic c = (if ic then is_alpha c else is_lower c)"

text \<open>The class \<open>[^.!?\n]\<close>.\<close>

definition not_terminator :: "char \<Rightarrow> bool" where
  "not_terminator c = (c \<notin> set ''.!?'' \<and> c \<noteq> newline)"

text \<open>\<open>(?:attendees?|participants?|people):\s*([^.!?\n]+)\<close>\<close>

definition attendees_pattern :: "bool \<Rightarrow> rx" where
  "attendees_pattern ic =
     Cat (Alt (Cat (lits ic ''attendee'') (Opt (lit ic CHR ''s'')))
           (Alt (Cat (lits ic ''participant'') (Opt (lit ic CHR ''s'')))
                (lits ic ''people'')))
      (Cat (lit ic CHR '':'')
        (Cat (Star is_space) (Grp (Plus not_terminator))))"

text \<open>\<open>^([A-Z][a-z]+(?:\s+[A-Z][a-z]+)?):\s\<close>\<close>

definition speaker_pattern :: "bool \<Rightarrow> rx" where
  "speaker_pattern ic =
     Cat Bol
      (Cat (Grp (Cat (Chr (cls_upper ic))
                  (Cat (Plus (cls_lower ic))
                    (Opt (Cat (Plus is_space)
                           (Cat (Chr (cls_upper ic)) (Plus (cls_lower ic))))))))
        (Cat (lit ic CHR '':'') (Chr is_space)))"

text \<open>\<open>^[A-Za-z\s\-']+$\<close>\<close>

definition name_char :: "char \<Rightarrow> bool" where
  "name_char c = (is_alpha c \<or> is_space c \<or> c = CHR ''-'' \<or> c = CHR 0x27)"

definition name_pattern :: rx where
  "name_pattern = Cat Bol (Cat (Plus name_char) Eol)"

subsection \<open>The extractor\<close>

definition non_names :: "string list" where
  "non_names =
     [''Team'', ''Meeting'', ''Call'', ''Discussion'', ''Review'', ''Update'',
      ''Monday'', ''Tuesday'', ''Wednesday'', ''Thursday'', ''Friday'', ''Saturday'', ''Sunday'',
      ''January'', ''February'', ''March'', ''April'', ''May'', ''June'',
      ''July'', ''August'', ''September'', ''October'', ''November'', ''December'',
      ''AM'', ''PM'', ''EST'', ''PST'', ''UTC'', ''GMT'']"

definition is_likely_person_name :: "string \<Rightarrow> bool" where
  "is_likely_person_name name =
     (if length name < 2 \<or> length name > 50 then False
      else if \<not> is_upper (hd name) then False
      else if name \<in> set non_names then False
      else if re_match False name_pattern name = None then False
      else True)"

text \<open>The names added by the first loop: the speaker label of each line.\<close>

definition speaker_names :: "string \<Rightarrow> string list" where
  "speaker_names text =
     concat (map (\<lambda>line.
        case re_match False (speaker_pattern False) (strip line) of
          Some (Some g) \<Rightarrow> (let name = strip g in if is_likely_person_name name then [name] else [])
        | _ \<Rightarrow> [])
      (fields (\<lambda>c. c = newline) text))"

text \<open>The names added by the second loop for one pattern, searched with
  \<open>re.IGNORECASE | re.MULTILINE\<close>: the group of each match, split at the separators.\<close>

definition pattern_names :: "rx \<Rightarrow> string \<Rightarrow> string list" where
  "pattern_names p text =
     concat (map (\<lambda>cap.
        case cap of
          Some g \<Rightarrow>
            filter (\<lambda>name. is_likely_person_name name \<and> length (split_ws name) \<le> 3)
              (map strip (re_split_runs is_separator False (strip g)))
        | None \<Rightarrow> [])
      (re_finditer True p True text))"

text \<open>The result is the list of a Python set, whose order is not fixed: it is a set here.
  The third pattern of the source's list is skipped by \<open>patterns[:-1]\<close>.\<close>

definition extract_person_names :: "string \<Rightarrow> string set" where
  "extract_person_names text =
     set (speaker_names text @
          pattern_names (attendees_pattern True) text @
          pattern_names (speaker_pattern True) text)"

text \<open>The example text of \<open>main()\<close>, without its last attendee.\<close>

definition demo_text :: string where
  "demo_text = ''Meeting with Gaia Team. Attendees: Aaron, Darren, Susanna''"


section \<open>People directory and resolver (people\_manager.py)\<close>

subsection \<open>Records of the store\<close>

text \<open>A person page as the store returns it: its \<open>id\<close> and the text contents of the items of
  its title property \<open>properties.Name.title\<close> (empty when the page has no title).\<close>

record person =
  p_id :: string
  p_title :: "string list"

text \<open>The JSON of one page of a database query.\<close>

record query_result =
  results :: "person list"
  has_more :: bool
  next_cursor :: "string option"

text \<open>A request either raises \<open>requests.exceptions.RequestException\<close> or returns its JSON.\<close>

datatype 'a response = RequestException | Json 'a

text \<open>The object state of \<open>PeopleManager\<close>.\<close>

record people_manager =
  token :: string
  people_database_id :: string
  people_cache :: "person list option"

subsection \<open>Loading the directory\<close>

text \<open>The request body: \<open>start_cursor\<close> is sent when it is set and not empty.\<close>

definition query_data :: "string option \<Rightarrow> string option" where
  "query_data start_cursor = (if is_set start_cursor then start_cursor else None)"

text \<open>The \<open>while has_more\<close> loop of \<open>get_all_people\<close>, from the request with the given cursor
  on; \<open>post\<close> is the store's answer to a query with the given body. The loop runs as long as
  the store reports more pages: the result is \<open>None\<close> when it never ends.\<close>

partial_function (option) fetch_pages ::
  "(string option \<Rightarrow> query_result response) \<Rightarrow> string option \<Rightarrow> person list
     \<Rightarrow> person list response option" where
  "fetch_pages post start_cursor all_people =
     (case post (query_data start_cursor) of
        RequestException \<Rightarrow> Some RequestException
      | Json result \<Rightarrow>
          if has_more result
          then fetch_pages post (next_cursor result) (all_people @ results result)
          else Some (Json (all_people @ results result)))"

declare fetch_pages.simps [code]

definition reload_people ::
  "(string option \<Rightarrow> query_result response) \<Rightarrow> people_manager
     \<Rightarrow> (person list \<times> people_manager) option" where
  "reload_people post st =
     (case fetch_pages post None [] of
        None \<Rightarrow> None
      | Some RequestException \<Rightarrow> Some ([], st)
      | Some (Json all_people) \<Rightarrow> Some (all_people, st\<lparr>people_cache := Some all_people\<rparr>))"

definition get_all_people ::
  "(string option \<Rightarrow> query_result response) \<Rightarrow> bool \<Rightarrow> people_manager
     \<Rightarrow> (person list \<times> people_manager) option" where
  "get_all_people post force_refresh st =
     (case people_cache st of
        None \<Rightarrow> reload_people post st
      | Some cached \<Rightarrow> if force_refresh then reload_people post st else Some (cached, st))"

subsection \<open>Resolving a name\<close>

text \<open>The \<open>for person in people\<close> loop of \<open>find_matching_person\<close>, carrying \<open>best_match\<close> and
  \<open>best_score\<close>. The parameter \<open>ratio\<close> is \<open>SequenceMatcher(None, a, b).ratio()\<close>, a double,
  taken as the real number it denotes.\<close>

fun match_loop ::
  "(string \<Rightarrow> string \<Rightarrow> real) \<Rightarrow> string \<Rightarrow> real \<Rightarrow> person list \<Rightarrow> person option \<Rightarrow> real
     \<Rightarrow> person option" where
  "match_loop ratio name threshold [] best_match best_score = best_match"
| "match_loop ratio name threshold (person # people) best_match best_score =
     (case p_title person of
        [] \<Rightarrow> match_loop ratio name threshold people best_match best_score
      | person_name # other_items \<Rightarrow>
          (let score = ratio (lower name) (lower person_name)
           in if score > best_score \<and> score \<ge> threshold
              then match_loop ratio name threshold people (Some person) score
              else match_loop ratio name threshold people best_match best_score))"

definition find_matching_person ::
  "(string \<Rightarrow> string \<Rightarrow> real) \<Rightarrow> (string option \<Rightarrow> query_result response) \<Rightarrow> string \<Rightarrow> real
     \<Rightarrow> people_manager \<Rightarrow> (person option \<times> people_manager) option" where
  "find_matching_person ratio post name threshold st =
     (case get_all_people post False st of
        None \<Rightarrow> None
      | Some (people, st') \<Rightarrow> Some (match_loop ratio name threshold people None 0, st'))"

subsection \<open>Creating a person\<close>

text \<open>\<open>create\<close> is the store's answer to the request that creates a page with the given name
  and additional properties.\<close>

definition create_person ::
  "(string \<Rightarrow> 'a option \<Rightarrow> person response) \<Rightarrow> string \<Rightarrow> 'a option \<Rightarrow> people_manager
     \<Rightarrow> person option \<times> people_manager" where
  "create_person create name additional_properties st =
     (case create name additional_properties of
        Json result \<Rightarrow> (Some result, st\<lparr>people_cache := None\<rparr>)
      | RequestException \<Rightarrow> (None, st))"

subsection \<open>Specification-side notions for the directory\<close>

text \<open>The cursor of request number \<open>n\<close> of a load that starts with the cursor \<open>c\<close>.\<close>

definition next_request :: "(string option \<Rightarrow> query_result response) \<Rightarrow> string option \<Rightarrow> string option" where
  "next_request post c =
     (case post (query_data c) of Json result \<Rightarrow> next_cursor result | RequestException \<Rightarrow> None)"

fun cursor_at :: "(string option \<Rightarrow> query_result response) \<Rightarrow> string option \<Rightarrow> nat \<Rightarrow> string option" where
  "cursor_at post c 0 = c"
| "cursor_at post c (Suc n) = cursor_at post (next_request post c) n"

text \<open>The answer to request number \<open>n\<close> of a load from the start.\<close>

definition answer_at :: "(string option \<Rightarrow> query_result response) \<Rightarrow> nat \<Rightarrow> query_result response" where
  "answer_at post n = post (query_data (cursor_at post None n))"

text \<open>The people listed in an answer, and whether it announces a further page.\<close>

definition results_of :: "query_result response \<Rightarrow> person list" where
  "results_of a = (case a of Json result \<Rightarrow> results result | RequestException \<Rightarrow> [])"

definition announces_more :: "query_result response \<Rightarrow> bool" where
  "announces_more a = (case a of Json result \<Rightarrow> has_more result | RequestException \<Rightarrow> False)"

text \<open>The store announces a further page in each of its first \<open>n\<close> answers, so that the load
  makes request number \<open>n\<close>.\<close>

definition more_pages :: "(string option \<Rightarrow> query_result response) \<Rightarrow> nat \<Rightarrow> bool" where
  "more_pages post n = list_all (\<lambda>k. announces_more (answer_at post k)) [0 ..< n]"

text \<open>The people listed in the first \<open>n\<close> answers.\<close>

definition listed :: "(string option \<Rightarrow> query_result response) \<Rightarrow> nat \<Rightarrow> person list" where
  "listed post n = concat (map (\<lambda>k. results_of (answer_at post k)) [0 ..< n])"

text \<open>The score of a person for a name, and the people that have a title.\<close>

definition score_of :: "(string \<Rightarrow> string \<Rightarrow> real) \<Rightarrow> string \<Rightarrow> person \<Rightarrow> real" where
  "score_of ratio name person = ratio (lower name) (lower (hd (p_title person)))"

definition titled :: "person \<Rightarrow> bool" where
  "titled person = (p_title person \<noteq> [])"

text \<open>Person number \<open>i\<close> of the directory has the best score: it has a title, no titled person
  scores higher, and no earlier titled person scores as high.\<close>

definition best_at :: "(string \<Rightarrow> string \<Rightarrow> real) \<Rightarrow> string \<Rightarrow> person list \<Rightarrow> nat \<Rightarrow> bool" where
  "best_at ratio name people i =
     (i < length people \<and> titled (people ! i) \<and>
      (\<forall>j < length people. titled (people ! j) \<longrightarrow>
         score_of ratio name (people ! j) \<le> score_of ratio name (people ! i) \<and>
         (score_of ratio name (people ! j) = score_of ratio name (people ! i) \<longrightarrow> i \<le> j)))"

subsection \<open>Example directories\<close>

definition john :: person where
  "john = \<lparr>p_id = ''id-1'', p_title = [''John Smith'']\<rparr>"

definition joan :: person where
  "joan = \<lparr>p_id = ''id-2'', p_title = [''Joan Smith'']\<rparr>"

definition john_again :: person where
  "john_again = \<lparr>p_id = ''id-3'', p_title = [''john smith'']\<rparr>"

definition untitled :: person where
  "untitled = \<lparr>p_id = ''id-4'', p_title = []\<rparr>"

definition manager_with :: "person list option \<Rightarrow> people_manager" where
  "manager_with cache =
     \<lparr>token = ''secret'', people_database_id = ''people-db'', people_cache = cache\<rparr>"

text \<open>A store that is down, a store with an empty directory, a store that lists two pages,
  and a store whose second page fails.\<close>

definition store_down :: "string option \<Rightarrow> query_result response" where
  "store_down c = RequestException"

definition store_empty :: "string option \<Rightarrow> query_result response" where
  "store_empty c = Json \<lparr>results = [], has_more = False, next_cursor = None\<rparr>"

definition store_two_pages :: "person list \<Rightarrow> person list \<Rightarrow> string option \<Rightarrow> query_result response" where
  "store_two_pages first second c =
     (if c = None then Json \<lparr>results = first, has_more = True, next_cursor = Some ''page-2''\<rparr>
      else Json \<lparr>results = second, has_more = False, next_cursor = None\<rparr>)"

definition store_second_fails :: "person list \<Rightarrow> string option \<Rightarrow> query_result response" where
  "store_second_fails first c =
     (if c = None then Json \<lparr>results = first, has_more = True, next_cursor = Some ''page-2''\<rparr>
      else RequestException)"

text \<open>A store that accepts the creation of a page, and one that rejects it.\<close>

definition new_person :: person where
  "new_person = \<lparr>p_id = ''id-9'', p_title = [''New Person'']\<rparr>"

definition store_creates :: "string \<Rightarrow> unit option \<Rightarrow> person response" where
  "store_creates name props = Json \<lparr>p_id = ''id-9'', p_title = [name]\<rparr>"

definition store_rejects :: "string \<Rightarrow> unit option \<Rightarrow> person response" where
  "store_rejects name props = RequestException"


section \<open>The similarity ratio (difflib.SequenceMatcher)\<close>

text \<open>
  \<open>find_matching_person\<close> scores a pair of names with
  \<open>SequenceMatcher(None, a, b).ratio()\<close> of Python's standard library. This section follows
  that class for two strings, with no junk predicate and with the default \<open>autojunk\<close>.
\<close>

text \<open>\<open>b2j[elt]\<close>: the indices at which \<open>elt\<close> occurs in \<open>b\<close>, in increasing order; no index
  at all when \<open>b\<close> has at least 200 elements and \<open>elt\<close> is popular in it.\<close>

definition b2j :: "string \<Rightarrow> char \<Rightarrow> nat list" where
  "b2j b elt =
     (let idxs = filter (\<lambda>j. b ! j = elt) [0 ..< length b]
      in if length b \<ge> 200 \<and> length idxs > length b div 100 + 1 then [] else idxs)"

text \<open>The loop \<open>for j in b2j.get(a[i], nothing)\<close> of \<open>find_longest_match\<close>. The dictionaries
  \<open>j2len\<close> and \<open>newj2len\<close> are functions that give 0 to a missing key: a stored length is at
  least 1. The best match so far is \<open>(besti, bestj, bestsize)\<close>.\<close>

fun j_loop ::
  "nat list \<Rightarrow> nat \<Rightarrow> nat \<Rightarrow> nat \<Rightarrow> (nat \<Rightarrow> nat) \<Rightarrow> (nat \<Rightarrow> nat) \<times> (nat \<times> nat \<times> nat)
     \<Rightarrow> (nat \<Rightarrow> nat) \<times> (nat \<times> nat \<times> nat)" where
  "j_loop [] blo bhi i j2len st = st"
| "j_loop (j # js) blo bhi i j2len (newj2len, besti, bestj, bestsize) =
     (if j < blo then j_loop js blo bhi i j2len (newj2len, besti, bestj, bestsize)
      else if j \<ge> bhi then (newj2len, besti, bestj, bestsize)
      else (let k = (if j = 0 then 0 else j2len (j - 1)) + 1
            in if k > bestsize
               then j_loop js blo bhi i j2len (newj2len(j := k), i + 1 - k, j + 1 - k, k)
               else j_loop js blo bhi i j2len (newj2len(j := k), besti, bestj, bestsize)))"

text \<open>The loop \<open>for i in range(alo, ahi)\<close>.\<close>

fun i_loop ::
  "string \<Rightarrow> string \<Rightarrow> nat list \<Rightarrow> nat \<Rightarrow> nat \<Rightarrow> (nat \<Rightarrow> nat) \<times> (nat \<times> nat \<times> nat)
     \<Rightarrow> nat \<times> nat \<times> nat" where
  "i_loop a b [] blo bhi (j2len, best) = best"
| "i_loop a b (i # is) blo bhi (j2len, best) =
     i_loop a b is blo bhi (j_loop (b2j b (a ! i)) blo bhi i j2len (\<lambda>j. 0, best))"

text \<open>The two loops that extend the best match by equal elements on each end. The loops
  that take in junk do nothing without a junk predicate.\<close>

function extend_left :: "string \<Rightarrow> string \<Rightarrow> nat \<Rightarrow> nat \<Rightarrow> nat \<times> nat \<times> nat \<Rightarrow> nat \<times> nat \<times> nat" where
  "extend_left a b alo blo (besti, bestj, bestsize) =
     (if besti > alo \<and> bestj > blo \<and> a ! (besti - 1) = b ! (bestj - 1)
      then extend_left a b alo blo (besti - 1, bestj - 1, bestsize + 1)
      else (besti, bestj, bestsize))"
  by pat_completeness auto
termination
  by (relation "measure (\<lambda>(a, b, alo, blo, besti, bestj, bestsize). besti)") auto

declare extend_left.simps [simp del]

function extend_right :: "string \<Rightarrow> string \<Rightarrow> nat \<Rightarrow> nat \<Rightarrow> nat \<times> nat \<times> nat \<Rightarrow> nat \<times> nat \<times> nat" where
  "extend_right a b ahi bhi (besti, bestj, bestsize) =
     (if besti + bestsize < ahi \<and> bestj + bestsize < bhi \<and>
         a ! (besti + bestsize) = b ! (bestj + bestsize)
      then extend_right a b ahi bhi (besti, bestj, bestsize + 1)
      else (besti, bestj, bestsize))"
  by pat_completeness auto
termination
  by (relation "measure (\<lambda>(a, b, ahi, bhi, besti, bestj, bestsize). ahi - (besti + bestsize))") auto

declare extend_right.simps [simp del]

definition find_longest_match ::
  "string \<Rightarrow> string \<Rightarrow> nat \<Rightarrow> nat \<Rightarrow> nat \<Rightarrow> nat \<Rightarrow> nat \<times> nat \<times> nat" where
  "find_longest_match a b alo ahi blo bhi =
     extend_right a b ahi bhi
       (extend_left a b alo blo
          (i_loop a b [alo ..< ahi] blo bhi (\<lambda>j. 0, alo, blo, 0)))"


definition best_ok :: "nat \<Rightarrow> nat \<Rightarrow> nat \<times> nat \<times> nat \<Rightarrow> bool" where
  "best_ok alo ahi best =
     (case best of (besti, bestj, bestsize) \<Rightarrow>
        alo \<le> besti \<and> (bestsize = 0 \<longrightarrow> besti = alo) \<and> (bestsize > 0 \<longrightarrow> besti + bestsize \<le> ahi))"

definition right_ok :: "nat \<Rightarrow> nat \<Rightarrow> nat \<times> nat \<times> nat \<Rightarrow> bool" where
  "right_ok alo ahi best =
     (case best of (besti, bestj, bestsize) \<Rightarrow>
        alo \<le> besti \<and> (bestsize > 0 \<longrightarrow> besti + bestsize \<le> ahi))"

text \<open>The \<open>while queue\<close> loop of \<open>get_matching_blocks\<close>. The list \<open>queue\<close> is used as a stack:
  its last element is the head here. The loop ends because every block that is found lies
  inside the range that was searched, so that the ranges pushed are shorter.\<close>

function matching_blocks_loop ::
  "string \<Rightarrow> string \<Rightarrow> (nat \<times> nat \<times> nat \<times> nat) list \<Rightarrow> (nat \<times> nat \<times> nat) list
     \<Rightarrow> (nat \<times> nat \<times> nat) list" where
  "matching_blocks_loop a b [] blocks = blocks"
| "matching_blocks_loop a b ((alo, ahi, blo, bhi) # queue) blocks =
     (case find_longest_match a b alo ahi blo bhi of
        (i, j, k) \<Rightarrow>
          if k \<noteq> 0
          then matching_blocks_loop a b
                 ((if i + k < ahi \<and> j + k < bhi then [(i + k, ahi, j + k, bhi)] else []) @
                  (if alo < i \<and> blo < j then [(alo, i, blo, j)] else []) @ queue)
                 (blocks @ [(i, j, k)])
          else matching_blocks_loop a b queue blocks)"
  by pat_completeness auto
termination
proof -
  have j_loop_inv:
    "(\<forall>j. newj2len j \<le> i + 1 - alo) \<Longrightarrow> best_ok alo ahi best \<Longrightarrow>
       j_loop js blo bhi i j2len (newj2len, best) = (new', best') \<Longrightarrow>
       (\<forall>j. new' j \<le> i + 1 - alo) \<and> best_ok alo ahi best'"
    if assms: "\<forall>j. j2len j \<le> i - alo" "alo \<le> i" "i < ahi"
    for j2len i alo ahi newj2len best js blo bhi new' best'
  proof (induction js arbitrary: newj2len best)
    case Nil
    then show ?case by simp
  next
    case (Cons j js)
    obtain besti bestj bestsize where best: "best = (besti, bestj, bestsize)" by (cases best)
    define k where "k = (if j = 0 then 0 else j2len (j - 1)) + 1"
    have kb: "k \<le> i + 1 - alo" "k > 0"
      using assms(1)[rule_format, of "j - 1"] assms(2) by (auto simp: k_def Suc_diff_le)
    have new: "\<forall>j'. (newj2len(j := k)) j' \<le> i + 1 - alo" using Cons.prems(1) kb by simp
    have bk: "best_ok alo ahi (i + 1 - k, j + 1 - k, k)"
      using kb assms(2,3) by (auto simp: best_ok_def)
    show ?case
    proof (cases "j < blo")
      case True
      with Cons.prems(3) best
      have "j_loop js blo bhi i j2len (newj2len, best) = (new', best')" by simp
      from Cons.IH[OF Cons.prems(1,2) this] show ?thesis .
    next
      case False
      show ?thesis
      proof (cases "j \<ge> bhi")
        case True
        with False Cons.prems(3) best have "new' = newj2len" "best' = best" by simp_all
        with Cons.prems(1,2) show ?thesis by simp
      next
        case inb: False
        show ?thesis
        proof (cases "k > bestsize")
          case True
          with False inb Cons.prems(3) best
          have "j_loop js blo bhi i j2len (newj2len(j := k), i + 1 - k, j + 1 - k, k) = (new', best')"
            by (simp add: k_def Let_def)
          from Cons.IH[OF new bk this] show ?thesis .
        next
          case nk: False
          with False inb Cons.prems(3) best
          have "j_loop js blo bhi i j2len (newj2len(j := k), best) = (new', best')"
            by (simp add: k_def Let_def)
          from Cons.IH[OF new Cons.prems(2) this] show ?thesis .
        qed
      qed
    qed
  qed
  have i_loop_inv:
    "is = [l ..< ahi] \<Longrightarrow> alo \<le> l \<Longrightarrow> (\<forall>j. j2len j \<le> l - alo) \<Longrightarrow> best_ok alo ahi best \<Longrightarrow>
       best_ok alo ahi (i_loop a b is blo bhi (j2len, best))"
    for "is" l ahi alo j2len best a b blo bhi
  proof (induction "is" arbitrary: l j2len best)
    case Nil
    then show ?case by simp
  next
    case (Cons i "is")
    from Cons.prems(1)[symmetric] have i: "i = l" "l < ahi" "is = [Suc l ..< ahi]"
      by (auto simp: upt_eq_Cons_conv)
    obtain new' best' where j: "j_loop (b2j b (a ! i)) blo bhi i j2len (\<lambda>j. 0, best) = (new', best')"
      by (cases "j_loop (b2j b (a ! i)) blo bhi i j2len (\<lambda>j. 0, best)")
    have "(\<forall>j. new' j \<le> i + 1 - alo) \<and> best_ok alo ahi best'"
      by (rule j_loop_inv[OF _ _ _ _ _ j]) (use Cons.prems i in auto)
    then have "best_ok alo ahi (i_loop a b is blo bhi (new', best'))"
      using Cons.prems(2) i by (intro Cons.IH[of "Suc l"]) auto
    with j show ?case by simp
  qed
  have extend_left_inv:
    "best_ok alo ahi best \<Longrightarrow> best_ok alo ahi (extend_left a b alo blo best)"
    for alo ahi best a b blo
  proof (induction a b alo blo best rule: extend_left.induct)
    case (1 a b alo blo besti bestj bestsize)
    show ?case
    proof (cases "besti > alo \<and> bestj > blo \<and> a ! (besti - 1) = b ! (bestj - 1)")
      case True
      with 1(2) have "best_ok alo ahi (besti - 1, bestj - 1, bestsize + 1)"
        by (auto simp: best_ok_def)
      from 1(1)[OF True this] True show ?thesis by (subst extend_left.simps) simp
    next
      case False
      with 1(2) show ?thesis by (subst extend_left.simps) auto
    qed
  qed
  have extend_right_inv:
    "right_ok alo ahi best \<Longrightarrow> right_ok alo ahi (extend_right a b ahi bhi best)"
    for alo ahi best a b bhi
  proof (induction a b ahi bhi best rule: extend_right.induct)
    case (1 a b ahi bhi besti bestj bestsize)
    show ?case
    proof (cases "besti + bestsize < ahi \<and> bestj + bestsize < bhi \<and>
           a ! (besti + bestsize) = b ! (bestj + bestsize)")
      case True
      with 1(2) have "right_ok alo ahi (besti, bestj, bestsize + 1)"
        by (auto simp: right_ok_def)
      from 1(1)[OF True this] True show ?thesis by (subst extend_right.simps) simp
    next
      case False
      with 1(2) show ?thesis by (subst extend_right.simps) auto
    qed
  qed
  have find_longest_match_bounds: "alo \<le> i \<and> i + k \<le> ahi"
    if assms: "find_longest_match a b alo ahi blo bhi = (i, j, k)" "k \<noteq> 0"
    for a b alo ahi blo bhi i j k
  proof -
    have "best_ok alo ahi (i_loop a b [alo ..< ahi] blo bhi (\<lambda>j. 0, alo, blo, 0))"
      by (rule i_loop_inv[OF refl]) (simp_all add: best_ok_def)
    then have "best_ok alo ahi (extend_left a b alo blo (i_loop a b [alo ..< ahi] blo bhi (\<lambda>j. 0, alo, blo, 0)))"
      by (rule extend_left_inv)
    then have "right_ok alo ahi (extend_left a b alo blo (i_loop a b [alo ..< ahi] blo bhi (\<lambda>j. 0, alo, blo, 0)))"
      by (auto simp: best_ok_def right_ok_def)
    then have "right_ok alo ahi (find_longest_match a b alo ahi blo bhi)"
      unfolding find_longest_match_def by (rule extend_right_inv)
    with assms show ?thesis by (simp add: right_ok_def)
  qed
  show ?thesis
  proof (relation "measure (\<lambda>(a, b, queue, blocks).
            sum_list (map (\<lambda>(alo, ahi, blo, bhi). 2 * (ahi - alo) + 1) queue))", goal_cases)
    case 1
    show ?case by simp
  next
    case prems: (2 a b alo ahi blo bhi queue blocks i jk j k)
    from prems have "find_longest_match a b alo ahi blo bhi = (i, j, k)" by simp
    from find_longest_match_bounds[OF this] prems(3)
    have "alo \<le> i" "i + k \<le> ahi" "0 < k" by simp_all
    then show ?case by (simp split: if_splits) arith
  next
    case 3
    then show ?case by simp
  qed
qed

declare matching_blocks_loop.simps [simp del]

text \<open>\<open>ratio()\<close>: twice the number of matched characters over the total length, and 1 for
  two empty strings. Sorting the blocks and merging adjacent ones, as \<open>get_matching_blocks\<close>
  does before it returns them, leave the sum of their sizes unchanged. Python rounds the
  quotient to a double; it is exact here.\<close>

definition matches :: "string \<Rightarrow> string \<Rightarrow> nat" where
  "matches a b =
     sum_list (map (\<lambda>(i, j, k). k)
       (matching_blocks_loop a b [(0, length a, 0, length b)] []))"

definition sequence_ratio :: "string \<Rightarrow> string \<Rightarrow> real" where
  "sequence_ratio a b =
     (if length a + length b \<noteq> 0
      then 2 * real (matches a b) / real (length a + length b)
      else 1)"


section \<open>What the linker reads from the people database (update\_meeting.py)\<close>

text \<open>\<open>get_all_people_names()\<close>: one query without a cursor; the first title item of every
  person that has a title; no name when a variable is missing or the request fails.\<close>

definition get_all_people_names ::
  "string option \<Rightarrow> string option \<Rightarrow> (string option \<Rightarrow> query_result response) \<Rightarrow> string list" where
  "get_all_people_names tok db post =
     (if \<not> is_set tok \<or> \<not> is_set db then []
      else case post None of
             RequestException \<Rightarrow> []
           | Json people_data \<Rightarrow>
               concat (map (\<lambda>person. case p_title person of
                                         [] \<Rightarrow> []
                                       | person_name # other_items \<Rightarrow> [person_name])
                        (results people_data)))"

text \<open>\<open>get_person_link(attendee_name)\<close>: the page of the best match at the threshold 0.8,
  found by the same loop as in \<open>find_matching_person\<close>; the URL is the page id without its
  hyphens.\<close>

definition page_url :: "person \<Rightarrow> string" where
  "page_url page = ''https://www.notion.so/'' @ filter (\<lambda>c. c \<noteq> CHR ''-'') (p_id page)"

definition get_person_link ::
  "(string \<Rightarrow> string \<Rightarrow> real) \<Rightarrow> string option \<Rightarrow> string option
     \<Rightarrow> (string option \<Rightarrow> query_result response) \<Rightarrow> string \<Rightarrow> string option" where
  "get_person_link ratio tok db post attendee_name =
     (if \<not> is_set tok \<or> \<not> is_set db then None
      else case post None of
             RequestException \<Rightarrow> None
           | Json people_data \<Rightarrow>
               map_option page_url
                 (match_loop ratio attendee_name 0.8 (results people_data) None 0))"

text \<open>The environment of a process that has a people database and no projects database.\<close>

definition people_env ::
  "(string \<Rightarrow> string \<Rightarrow> real) \<Rightarrow> string option \<Rightarrow> string option
     \<Rightarrow> (string option \<Rightarrow> query_result response) \<Rightarrow> linker_env" where
  "people_env ratio tok db post =
     \<lparr>notion_token = tok, people_db_id = db, projects_db_id = None,
      people_names = get_all_people_names tok db post, project_names = [],
      person_link = get_person_link ratio tok db post, project_link = (\<lambda>name. None)\<rparr>"

text \<open>A store whose only person has a title item with empty text.\<close>

definition store_blank_name :: "string option \<Rightarrow> query_result response" where
  "store_blank_name c =
     Json \<lparr>results = [\<lparr>p_id = ''id-0'', p_title = ['''']\<rparr>], has_more = False,
           next_cursor = None\<rparr>"

definition blank_env :: linker_env where
  "blank_env = people_env sequence_ratio (Some ''secret'') (Some ''people-db'') store_blank_name"


section \<open>A model of the store\<close>

text \<open>
  The store is outside the program. This model states what the cache relies on: the store
  lists its pages in order, at least one page per answer, the cursor of an answer tells the
  offset of the next one, and a page that the store has created is listed from then on. A
  store that is not available fails every request.
\<close>

record notion_store =
  pages :: "person list"
  page_size :: nat
  available :: bool

definition per_page :: "notion_store \<Rightarrow> nat" where
  "per_page s = max 1 (page_size s)"

text \<open>The cursor is opaque to the program; here it is a string as long as the offset.\<close>

definition cursor_offset :: "string option \<Rightarrow> nat" where
  "cursor_offset c = (case c of None \<Rightarrow> 0 | Some cursor \<Rightarrow> length cursor)"

definition offset_cursor :: "nat \<Rightarrow> string" where
  "offset_cursor k = replicate k CHR ''c''"

text \<open>The store's answer to a query of the people database.\<close>

definition store_post :: "notion_store \<Rightarrow> string option \<Rightarrow> query_result response" where
  "store_post s c =
     (if \<not> available s then RequestException
      else (let off = cursor_offset c;
                more = off + per_page s < length (pages s)
            in Json \<lparr>results = take (per_page s) (drop off (pages s)),
                      has_more = more,
                      next_cursor = (if more then Some (offset_cursor (off + per_page s))
                                     else None)\<rparr>))"

text \<open>\<open>create_person\<close> together with its effect on the store: the page that the store
  returns is one of its pages afterwards.\<close>

definition create_person_in ::
  "(string \<Rightarrow> 'a option \<Rightarrow> person response) \<Rightarrow> string \<Rightarrow> 'a option
     \<Rightarrow> people_manager \<times> notion_store \<Rightarrow> person option \<times> people_manager \<times> notion_store" where
  "create_person_in create name additional_properties w =
     (case w of (st, s) \<Rightarrow>
        (case create_person create name additional_properties st of
           (Some page, st1) \<Rightarrow> (Some page, st1, s\<lparr>pages := pages s @ [page]\<rparr>)
         | (None, st1) \<Rightarrow> (None, st1, s)))"

text \<open>A store that holds John Smith and serves one person per answer.\<close>

definition john_store :: notion_store where
  "john_store = \<lparr>pages = [john], page_size = 1, available = True\<rparr>"


section \<open>Properties of the mention linker\<close>

subsection \<open>Searching\<close>

lemma ci_prefix_length: "ci_prefix p u \<Longrightarrow> length p \<le> length u"
  by (induction p u rule: ci_prefix.induct) auto

lemma re_search_ci_bound:
  "re_search_ci p t = Some s \<Longrightarrow> s + length p \<le> length t"
proof (induction t arbitrary: s)
  case Nil
  then show ?case by (cases p) (auto split: if_splits)
next
  case (Cons c cs)
  then show ?case
    by (auto split: if_splits dest: ci_prefix_length)
qed

lemma re_search_ci_lt:
  assumes "remaining \<noteq> []" "re_search_ci v remaining = Some s"
  shows "s < length remaining"
proof (cases v)
  case Nil
  with assms show ?thesis by (cases remaining) auto
next
  case (Cons a as)
  with re_search_ci_bound[OF assms(2)] show ?thesis by simp
qed

subsection \<open>The scan over the variations\<close>

lemma scan_variations_match:
  "scan_variations vs remaining em ep = Some m \<Longrightarrow> em = Some m \<or> match_of vs remaining m"
proof (induction vs arbitrary: em ep)
  case Nil
  then show ?case by simp
next
  case (Cons ve vs)
  obtain v e where ve: "ve = (v, e)" by (cases ve)
  show ?case
  proof (cases "re_search_ci v remaining")
    case None
    with Cons ve show ?thesis by (auto simp: match_of_def)
  next
    case (Some s)
    show ?thesis
    proof (cases "s < ep")
      case True
      let ?m = "\<lparr>m_entity = e, m_start = s, m_end = s + length v,
                  matched_text = take (length v) (drop s remaining)\<rparr>"
      from Cons.prems ve Some True
      have "scan_variations vs remaining (Some ?m) s = Some m" by simp
      from Cons.IH[OF this] have "?m = m \<or> match_of vs remaining m" by simp
      then show ?thesis
      proof
        assume "?m = m"
        then have "match_of (ve # vs) remaining m"
          using Some ve by (auto simp: match_of_def)
        then show ?thesis ..
      next
        assume "match_of vs remaining m"
        then show ?thesis by (auto simp: match_of_def)
      qed
    next
      case False
      with Cons ve Some show ?thesis by (auto simp: match_of_def)
    qed
  qed
qed

lemma find_earliest_match:
  "find_earliest vs remaining = Some m \<Longrightarrow> match_of vs remaining m"
  using scan_variations_match[of vs remaining None "length remaining" m]
  by (simp add: find_earliest_def)

lemma scan_variations_none_below:
  "(\<forall>(v, e) \<in> set vs. \<forall>t. re_search_ci v remaining = Some t \<longrightarrow> ep \<le> t) \<Longrightarrow>
     scan_variations vs remaining em ep = em"
  by (induction vs arbitrary: em ep) (auto split: option.splits)

lemma scan_variations_winner:
  "wins_below vs remaining ep i s \<Longrightarrow>
     scan_variations vs remaining em ep = Some (match_at (vs ! i) remaining s)"
proof (induction vs arbitrary: i em ep)
  case Nil
  then show ?case by (simp add: wins_below_def)
next
  case (Cons ve vs)
  obtain v e where ve: "ve = (v, e)" by (cases ve)
  from Cons.prems have i: "i < Suc (length vs)"
    and si: "re_search_ci (fst ((ve # vs) ! i)) remaining = Some s" and sep: "s < ep"
    and least: "\<And>j t. j < Suc (length vs) \<Longrightarrow>
                  re_search_ci (fst ((ve # vs) ! j)) remaining = Some t \<Longrightarrow>
                  s \<le> t \<and> (t = s \<longrightarrow> i \<le> j)"
    by (auto simp: wins_below_def)
  show ?case
  proof (cases i)
    case 0
    with si ve have v: "re_search_ci v remaining = Some s" by simp
    have "\<forall>(v', e') \<in> set vs. \<forall>t. re_search_ci v' remaining = Some t \<longrightarrow> s \<le> t"
    proof (clarify)
      fix v' e' t assume "(v', e') \<in> set vs" "re_search_ci v' remaining = Some t"
      then obtain j where "j < length vs" "vs ! j = (v', e')" by (auto simp: in_set_conv_nth)
      with least[of "Suc j" t] \<open>re_search_ci v' remaining = Some t\<close> show "s \<le> t" by simp
    qed
    from scan_variations_none_below[OF this] v sep 0 ve show ?thesis
      by (simp add: match_at_def)
  next
    case (Suc k)
    with i si have k: "k < length vs" "re_search_ci (fst (vs ! k)) remaining = Some s"
      by simp_all
    have rest: "wins_below vs remaining ep' k s" if "s < ep'" for ep'
      unfolding wins_below_def
    proof (intro conjI allI impI)
      fix j t assume "j < length vs" "re_search_ci (fst (vs ! j)) remaining = Some t"
      with least[of "Suc j" t] Suc show "s \<le> t" "t = s \<Longrightarrow> k \<le> j" by simp_all
    qed (use k that in simp_all)
    show ?thesis
    proof (cases "re_search_ci v remaining")
      case None
      with Cons.IH[OF rest[OF sep]] ve Suc show ?thesis by simp
    next
      case (Some t0)
      with least[of 0 t0] ve Suc have "s < t0" by auto
      show ?thesis
      proof (cases "t0 < ep")
        case True
        with Cons.IH[OF rest[OF \<open>s < t0\<close>]] ve Suc Some show ?thesis by simp
      next
        case False
        with Cons.IH[OF rest[OF sep]] ve Suc Some show ?thesis by simp
      qed
    qed
  qed
qed

lemma find_earliest_winner:
  assumes "remaining \<noteq> []" "wins vs remaining i s"
  shows "find_earliest vs remaining = Some (match_at (vs ! i) remaining s)"
proof -
  from assms have "s < length remaining"
    by (auto simp: wins_def intro: re_search_ci_lt)
  with assms(2) have "wins_below vs remaining (length remaining) i s"
    by (simp add: wins_def wins_below_def)
  then show ?thesis unfolding find_earliest_def by (rule scan_variations_winner)
qed

lemma find_earliest_none:
  assumes "\<forall>(v, e) \<in> set vs. re_search_ci v remaining = None"
  shows "find_earliest vs remaining = None"
  unfolding find_earliest_def using assms
  by (intro scan_variations_none_below) auto

subsection \<open>Sorting longest first\<close>

lemma set_sort_longest_first: "set (sort_longest_first f xs) = set xs"
  by (simp add: sort_longest_first_def)

lemma sort_longest_first_sorted:
  "sorted_wrt (\<lambda>a b. length (f a) \<ge> length (f b)) (sort_longest_first f xs)"
proof -
  have "sorted (map (\<lambda>x. - int (length (f x))) (sort_longest_first f xs))"
    by (simp add: sort_longest_first_def)
  then show ?thesis
    by (simp add: sorted_map sorted_wrt_iff_nth_less)
qed

lemma sort_longest_first_stable:
  "filter (\<lambda>x. length (f x) = k) (sort_longest_first f xs) = filter (\<lambda>x. length (f x) = k) xs"
  using sort_key_stable[of "\<lambda>x. - int (length (f x))" "- int k" xs]
  by (simp add: sort_longest_first_def)

subsection \<open>One round of the loop\<close>

lemma link_loop_done: "link_loop g vs [] parts = Some parts"
  by (subst link_loop.simps) simp

lemma link_loop_last:
  "remaining \<noteq> [] \<Longrightarrow> find_earliest vs remaining = None \<Longrightarrow>
     link_loop g vs remaining parts = Some (parts @ [plain remaining])"
  by (subst link_loop.simps) simp

lemma link_loop_step:
  "remaining \<noteq> [] \<Longrightarrow> find_earliest vs remaining = Some m \<Longrightarrow>
     link_loop g vs remaining parts =
     link_loop g vs (drop (m_end m) remaining) (parts @ match_parts g remaining m)"
  by (subst link_loop.simps) simp

lemma parts_text_append: "parts_text (xs @ ys) = parts_text xs @ parts_text ys"
  by (simp add: parts_text_def)

lemma match_parts_text:
  assumes "match_of vs remaining m"
  shows "parts_text (match_parts g remaining m) @ drop (m_end m) remaining = remaining"
proof -
  from assms obtain v e where v: "(v, e) \<in> set vs"
    "m_end m = m_start m + length v"
    "matched_text m = take (length v) (drop (m_start m) remaining)"
    by (auto simp: match_of_def)
  have "take (m_start m) remaining @ take (length v) (drop (m_start m) remaining)
          @ drop (length v) (drop (m_start m) remaining) = remaining"
    by (simp only: append_take_drop_id)
  then have split: "take (m_start m) remaining @ matched_text m @ drop (m_end m) remaining
                      = remaining"
    using v by (simp add: add.commute)
  show ?thesis
  proof (cases "m_start m > 0")
    case True
    with split show ?thesis
      by (simp add: match_parts_def parts_text_def plain_def split: option.splits)
  next
    case False
    with split show ?thesis
      by (simp add: match_parts_def parts_text_def plain_def split: option.splits)
  qed
qed

text \<open>When no variation is the empty string every round consumes at least one character:
  the loop ends, and the parts spell the text that was left to process.\<close>

lemma link_loop_total:
  assumes ne: "\<forall>(v, e) \<in> set vs. v \<noteq> []"
  shows "\<exists>ps. link_loop g vs remaining parts = Some ps \<and>
               parts_text ps = parts_text parts @ remaining"
proof (induction "length remaining" arbitrary: remaining parts rule: less_induct)
  case less
  show ?case
  proof (cases "remaining = []")
    case True
    then show ?thesis by (simp add: link_loop_done)
  next
    case False
    show ?thesis
    proof (cases "find_earliest vs remaining")
      case None
      with False show ?thesis
        by (simp add: link_loop_last parts_text_def plain_def)
    next
      case (Some m)
      then have mo: "match_of vs remaining m" by (rule find_earliest_match)
      with ne have "m_end m > 0" by (auto simp: match_of_def)
      with False have "length (drop (m_end m) remaining) < length remaining" by simp
      from less[OF this, of "parts @ match_parts g remaining m"]
      obtain ps where ps:
        "link_loop g vs (drop (m_end m) remaining) (parts @ match_parts g remaining m) = Some ps"
        "parts_text ps =
           parts_text (parts @ match_parts g remaining m) @ drop (m_end m) remaining"
        by blast
      have "link_loop g vs remaining parts = Some ps"
        using False Some ps(1) by (simp add: link_loop_step)
      moreover have "parts_text ps = parts_text parts @ remaining"
        using ps(2) match_parts_text[OF mo, of g] by (simp add: parts_text_append)
      ultimately show ?thesis by blast
    qed
  qed
qed

text \<open>When the winning match is empty the remaining text does not shrink, and the loop
  never ends.\<close>

lemma link_loop_stuck:
  assumes "remaining \<noteq> []" "find_earliest vs remaining = Some m" "m_end m = 0"
  shows "link_loop g vs remaining parts = None"
proof (cases "link_loop g vs remaining parts")
  case None
  then show ?thesis .
next
  case (Some y)
  have "\<not> (remaining \<noteq> [] \<and> (\<exists>m. find_earliest vs remaining = Some m \<and> m_end m = 0))"
  proof (rule link_loop.raw_induct
          [where P = "\<lambda>g vs r p y. \<not> (r \<noteq> [] \<and> (\<exists>m. find_earliest vs r = Some m \<and> m_end m = 0))",
           OF _ Some], goal_cases)
    case (1 f g' vs' r p y')
    show ?case
    proof
      assume "r \<noteq> [] \<and> (\<exists>m. find_earliest vs' r = Some m \<and> m_end m = 0)"
      then obtain m' where m': "r \<noteq> []" "find_earliest vs' r = Some m'" "m_end m' = 0"
        by blast
      with 1(2) have "f g' vs' r (p @ match_parts g' r m') = Some y'"
        by simp
      from 1(1)[OF this] m' show False by blast
    qed
  qed
  with assms show ?thesis by blast
qed

subsection \<open>Evaluation and emission lemmas\<close>

lemmas search_eval = ci_eq_def lower_chr_def is_upper_def

lemma match_parts_simp:
  "match_parts g remaining m =
     (if m_start m > 0 then [plain (take (m_start m) remaining)] else []) @
     [\<lparr>content = matched_text m, link = g (m_entity m)\<rparr>]"
  by (simp add: match_parts_def split: option.splits)





lemma sam_found:
  "find_earliest [(''Sam Lee'', a), (''Sam'', b)] ''Call Sam Lee'' =
     Some (match_at (''Sam Lee'', a) ''Call Sam Lee'' 5)"
  by (simp add: find_earliest_def match_at_def search_eval)

lemma sam_found_entity:
  "find_earliest [(''Sam Lee project'', a), (''Sam project'', b), (''Sam Lee'', c), (''Sam'', d)]
     ''Call Sam Lee'' = Some (match_at (''Sam Lee'', c) ''Call Sam Lee'' 5)"
  by (simp add: find_earliest_def match_at_def search_eval)

lemma sam_people:
  assumes "is_set (notion_token env)" "is_set (people_db_id env)"
    "people_names env = [''Sam'', ''Sam Lee''] \<or> people_names env = [''Sam Lee'', ''Sam'']"
  shows "create_rich_text_with_people_links env ''Call Sam Lee'' =
     Some [plain ''Call '', \<lparr>content = ''Sam Lee'', link = person_link env ''Sam Lee''\<rparr>]"
proof -
  have srt: "sort_longest_first fst (map (\<lambda>n. (n, n)) (people_names env)) =
      [(''Sam Lee'', ''Sam Lee''), (''Sam'', ''Sam'')]"
    using assms(3) by (auto simp: sort_longest_first_def)
  have "link_loop (person_link env) [(''Sam Lee'', ''Sam Lee''), (''Sam'', ''Sam'')] ''Call Sam Lee'' [] =
     Some [plain ''Call '', \<lparr>content = ''Sam Lee'', link = person_link env ''Sam Lee''\<rparr>]"
    by (simp add: link_loop_step[OF _ sam_found] match_parts_simp match_at_def link_loop_done)
  with assms srt show ?thesis
    by (auto simp: create_rich_text_with_people_links_def)
qed

lemma sam_entity:
  assumes "is_set (notion_token env)" "is_set (people_db_id env)"
    "people_names env = [''Sam'', ''Sam Lee''] \<or> people_names env = [''Sam Lee'', ''Sam'']"
    "\<not> is_set (projects_db_id env) \<or> project_names env = []"
  shows "create_rich_text_with_entity_links env ''Call Sam Lee'' =
     Some [plain ''Call '', \<lparr>content = ''Sam Lee'', link = person_link env ''Sam Lee''\<rparr>]"
proof -
  let ?s = "person_entity ''Sam''" and ?l = "person_entity ''Sam Lee''"
  let ?vs = "[(''Sam Lee project'', ?l), (''Sam project'', ?s), (''Sam Lee'', ?l), (''Sam'', ?s)]"
  have ents: "get_entities env = [?s, ?l] \<or> get_entities env = [?l, ?s]"
    using assms by (auto simp: get_entities_def)
  have srt: "sort_longest_first fst (all_variations (get_entities env)) = ?vs"
    using ents by (auto simp: sort_longest_first_def all_variations_def person_entity_def)
  have el: "entity_link env ?l = person_link env ''Sam Lee''"
    by (simp add: entity_link_def person_entity_def)
  have "link_loop (entity_link env) ?vs ''Call Sam Lee'' [] =
     Some [plain ''Call '', \<lparr>content = ''Sam Lee'', link = person_link env ''Sam Lee''\<rparr>]"
    by (simp add: link_loop_step[OF _ sam_found_entity] match_parts_simp match_at_def
          link_loop_done el)
  moreover have "get_entities env \<noteq> []" using ents by auto
  ultimately show ?thesis using assms(1) srt
    by (simp add: create_rich_text_with_entity_links_def)
qed

lemma wins_sam: "wins [(''Sam Lee'', ''Sam Lee''), (''Sam'', ''Sam'')] ''Call Sam Lee'' 0 5"
  by (simp add: wins_def search_eval less_Suc_eq all_conj_distrib)

lemma people_round_trip:
  assumes "\<forall>n \<in> set (people_names env). n \<noteq> []"
  shows "\<exists>ps. create_rich_text_with_people_links env text = Some ps \<and> parts_text ps = text"
proof -
  let ?vs = "sort_longest_first fst (map (\<lambda>n. (n, n)) (people_names env))"
  have "\<forall>(v, e) \<in> set ?vs. v \<noteq> []"
    using assms by (auto simp: set_sort_longest_first)
  from link_loop_total[OF this, of "person_link env" "text" "[]"]
  show ?thesis
    by (auto simp: create_rich_text_with_people_links_def parts_text_def plain_def)
qed

lemma entity_round_trip:
  assumes "\<forall>e \<in> set (get_entities env). e_name e \<noteq> []"
  shows "\<exists>ps. create_rich_text_with_entity_links env text = Some ps \<and> parts_text ps = text"
proof -
  let ?vs = "sort_longest_first fst (all_variations (get_entities env))"
  have "\<forall>e \<in> set (get_entities env). \<forall>v \<in> set (variations e). v \<noteq> []"
  proof (intro ballI)
    fix e v assume e: "e \<in> set (get_entities env)" and v: "v \<in> set (variations e)"
    from e assms have "e_name e \<noteq> []" by blast
    moreover from e obtain n where "e = person_entity n \<or> e = project_entity n"
      by (auto simp: get_entities_def split: if_splits)
    ultimately show "v \<noteq> []" using v
      by (auto simp: person_entity_def project_entity_def)
  qed
  then have "\<forall>(v, e) \<in> set ?vs. v \<noteq> []"
    by (auto simp: set_sort_longest_first all_variations_def)
  from link_loop_total[OF this, of "entity_link env" "text" "[]"]
  show ?thesis
    by (auto simp: create_rich_text_with_entity_links_def parts_text_def plain_def)
qed

lemma blank_env_names: "people_names blank_env = ['''']"
  by (simp add: blank_env_def people_env_def get_all_people_names_def is_set_def
        store_blank_name_def)

lemma blank_env_set:
  "is_set (notion_token blank_env)" "is_set (people_db_id blank_env)"
  "\<not> is_set (projects_db_id blank_env)"
  by (simp_all add: blank_env_def people_env_def is_set_def)

lemma blank_name_people: "create_rich_text_with_people_links blank_env ''a'' = None"
proof -
  have fe: "find_earliest [([], [])] ''a'' = Some (match_at ([], []) ''a'' 0)"
    by (simp add: find_earliest_def match_at_def)
  have "link_loop g [([], [])] ''a'' [] = None" for g :: "string \<Rightarrow> string option"
    by (rule link_loop_stuck[OF _ fe]) (simp_all add: match_at_def)
  then show ?thesis
    using blank_env_set
    by (simp add: create_rich_text_with_people_links_def blank_env_names sort_longest_first_def)
qed

lemma blank_name_entity: "create_rich_text_with_entity_links blank_env ''a'' = None"
proof -
  let ?e = "person_entity ''''"
  let ?vs = "[('' project'', ?e), ('''', ?e)]"
  have fe: "find_earliest ?vs ''a'' = Some (match_at ('''', ?e) ''a'' 0)"
    by (simp add: find_earliest_def match_at_def search_eval)
  have stuck: "link_loop g ?vs ''a'' [] = None" for g
    by (rule link_loop_stuck[OF _ fe]) (simp_all add: match_at_def)
  have "get_entities blank_env = [?e]"
    using blank_env_set by (simp add: get_entities_def blank_env_names)
  moreover have "sort_longest_first fst (all_variations [?e]) = ?vs"
    by (simp add: sort_longest_first_def all_variations_def person_entity_def)
  ultimately show ?thesis
    using blank_env_set by (simp add: create_rich_text_with_entity_links_def stuck)
qed

text \<open>Whenever the loop ends, the parts spell the text.\<close>

lemma link_loop_round_trip:
  assumes "link_loop g vs remaining parts = Some ps"
  shows "parts_text ps = parts_text parts @ remaining"
proof (rule link_loop.raw_induct
        [where P = "\<lambda>g vs r p y. parts_text y = parts_text p @ r", OF _ assms], goal_cases)
  case (1 f g' vs' r p y)
  show ?case
  proof (cases "r = []")
    case True
    with 1(2) show ?thesis by simp
  next
    case False
    show ?thesis
    proof (cases "find_earliest vs' r")
      case None
      with False 1(2) show ?thesis by (auto simp: parts_text_def plain_def)
    next
      case (Some m)
      with False 1(2) have "f g' vs' (drop (m_end m) r) (p @ match_parts g' r m) = Some y"
        by simp
      from 1(1)[OF this] match_parts_text[OF find_earliest_match[OF Some], of g']
      show ?thesis by (simp add: parts_text_append)
    qed
  qed
qed

lemma people_links_round_trip:
  assumes "create_rich_text_with_people_links env text = Some ps"
  shows "parts_text ps = text"
proof (cases "\<not> is_set (notion_token env) \<or> \<not> is_set (people_db_id env) \<or> people_names env = []")
  case True
  with assms show ?thesis
    by (auto simp: create_rich_text_with_people_links_def parts_text_def plain_def
          split: if_splits)
next
  case False
  with assms have "link_loop (person_link env)
      (sort_longest_first fst (map (\<lambda>n. (n, n)) (people_names env))) text [] = Some ps"
    by (simp add: create_rich_text_with_people_links_def)
  from link_loop_round_trip[OF this] show ?thesis by (simp add: parts_text_def)
qed

lemma entity_links_round_trip:
  assumes "create_rich_text_with_entity_links env text = Some ps"
  shows "parts_text ps = text"
proof (cases "\<not> is_set (notion_token env) \<or> get_entities env = []")
  case True
  with assms show ?thesis
    by (auto simp: create_rich_text_with_entity_links_def parts_text_def plain_def
          split: if_splits)
next
  case False
  with assms have "link_loop (entity_link env)
      (sort_longest_first fst (all_variations (get_entities env))) text [] = Some ps"
    by (simp add: create_rich_text_with_entity_links_def)
  from link_loop_round_trip[OF this] show ?thesis by (simp add: parts_text_def)
qed

section \<open>Properties of the name extraction\<close>

lemma demo_speaker_names: "speaker_names demo_text = []"
  by code_simp

lemma demo_attendees:
  "pattern_names (attendees_pattern True) demo_text = [''Aaron'', ''Darren'', ''Susanna'']"
  by code_simp

lemma demo_speaker_pattern: "pattern_names (speaker_pattern True) demo_text = []"
  by code_simp

lemma extract_empty: "extract_person_names [] = {}"
  by (simp add: extract_person_names_def speaker_names_def pattern_names_def re_match_def
        speaker_pattern_def attendees_pattern_def strip_def lit_def)

text \<open>Every name that is returned passed the filter, so a word of the stop list is never
  returned.\<close>

lemma extract_person_names_likely:
  assumes "name \<in> extract_person_names text"
  shows "is_likely_person_name name"
  using assms
  by (auto simp: extract_person_names_def speaker_names_def pattern_names_def Let_def
        split: option.splits if_splits)

lemma extract_person_names_no_stop_word:
  assumes "name \<in> set non_names"
  shows "name \<notin> extract_person_names text"
proof
  assume "name \<in> extract_person_names text"
  then have "is_likely_person_name name" by (rule extract_person_names_likely)
  with assms show False by (auto simp: is_likely_person_name_def split: if_splits)
qed

section \<open>Properties of the directory and the resolver\<close>

subsection \<open>The matching loop\<close>

lemma match_loop_keeps:
  "(\<forall>p \<in> set people. titled p \<longrightarrow>
       \<not> (score_of ratio name p > best_score \<and> score_of ratio name p \<ge> threshold)) \<Longrightarrow>
     match_loop ratio name threshold people best_match best_score = best_match"
proof (induction people arbitrary: best_match best_score)
  case Nil
  then show ?case by simp
next
  case (Cons person people)
  from Cons.prems have rest: "\<forall>p \<in> set people. titled p \<longrightarrow>
       \<not> (score_of ratio name p > best_score \<and> score_of ratio name p \<ge> threshold)"
    by simp
  show ?case
  proof (cases "p_title person")
    case Nil
    with Cons.IH[OF rest] show ?thesis by simp
  next
    case pt: (Cons person_name other_items)
    with Cons.prems have "\<not> (ratio (lower name) (lower person_name) > best_score \<and>
        ratio (lower name) (lower person_name) \<ge> threshold)"
      by (simp add: titled_def score_of_def)
    with pt Cons.IH[OF rest] show ?thesis by (auto simp: Let_def)
  qed
qed

lemma best_at_Cons_Suc:
  assumes "best_at ratio name (person # people) (Suc k)"
  shows "best_at ratio name people k"
    and "titled person \<Longrightarrow> score_of ratio name person < score_of ratio name (people ! k)"
proof -
  from assms have k: "k < length people" "titled (people ! k)"
    and mx: "\<And>j. j < Suc (length people) \<Longrightarrow> titled ((person # people) ! j) \<Longrightarrow>
         score_of ratio name ((person # people) ! j) \<le> score_of ratio name (people ! k) \<and>
         (score_of ratio name ((person # people) ! j) = score_of ratio name (people ! k) \<longrightarrow> Suc k \<le> j)"
    by (auto simp: best_at_def)
  show "best_at ratio name people k"
    unfolding best_at_def
  proof (intro conjI allI impI)
    fix j assume "j < length people" "titled (people ! j)"
    with mx[of "Suc j"]
    show "score_of ratio name (people ! j) \<le> score_of ratio name (people ! k)"
      "score_of ratio name (people ! j) = score_of ratio name (people ! k) \<Longrightarrow> k \<le> j"
      by simp_all
  qed (use k in simp_all)
  show "score_of ratio name person < score_of ratio name (people ! k)" if "titled person"
    using mx[of 0] that by (simp add: less_le)
qed

lemma match_loop_best:
  "best_at ratio name people i \<Longrightarrow> score_of ratio name (people ! i) > best_score \<Longrightarrow>
   score_of ratio name (people ! i) \<ge> threshold \<Longrightarrow>
     match_loop ratio name threshold people best_match best_score = Some (people ! i)"
proof (induction people arbitrary: i best_match best_score)
  case Nil
  then show ?case by (simp add: best_at_def)
next
  case (Cons person people)
  show ?case
  proof (cases i)
    case 0
    with Cons.prems have t: "titled person"
      and gt: "score_of ratio name person > best_score"
      and ge: "score_of ratio name person \<ge> threshold" by (simp_all add: best_at_def)
    from t obtain person_name other_items where pt: "p_title person = person_name # other_items"
      by (cases "p_title person") (auto simp: titled_def)
    have "\<forall>p \<in> set people. titled p \<longrightarrow>
        \<not> (score_of ratio name p > score_of ratio name person \<and> score_of ratio name p \<ge> threshold)"
    proof (intro ballI impI)
      fix p assume "p \<in> set people" "titled p"
      then obtain j where "j < length people" "people ! j = p" by (auto simp: in_set_conv_nth)
      with Cons.prems(1) 0 \<open>titled p\<close>
      have "score_of ratio name p \<le> score_of ratio name person"
        by (auto simp: best_at_def dest!: spec[of _ "Suc j"])
      then show "\<not> (score_of ratio name p > score_of ratio name person \<and>
          score_of ratio name p \<ge> threshold)" by simp
    qed
    from match_loop_keeps[OF this] pt gt ge 0 show ?thesis
      by (simp add: score_of_def Let_def)
  next
    case (Suc k)
    with Cons.prems have bk: "best_at ratio name people k"
      and lt: "titled person \<Longrightarrow> score_of ratio name person < score_of ratio name (people ! k)"
      and gt: "score_of ratio name (people ! k) > best_score"
      and ge: "score_of ratio name (people ! k) \<ge> threshold"
      by (auto dest: best_at_Cons_Suc)
    show ?thesis
    proof (cases "p_title person")
      case Nil
      with Cons.IH[OF bk gt ge] Suc show ?thesis by simp
    next
      case pt: (Cons person_name other_items)
      then have "titled person" by (simp add: titled_def)
      from lt[OF this] pt
      have h: "ratio (lower name) (lower person_name) < score_of ratio name (people ! k)"
        by (simp add: score_of_def)
      show ?thesis
        using Cons.IH[OF bk gt ge] Cons.IH[OF bk h ge] pt Suc
        by (simp add: Let_def)
    qed
  qed
qed

lemma best_at_exists:
  assumes "\<exists>p \<in> set people. titled p"
  shows "\<exists>i. best_at ratio name people i"
proof -
  define S where "S = {j. j < length people \<and> titled (people ! j)}"
  define sc where "sc = (\<lambda>j. score_of ratio name (people ! j))"
  have fin: "finite S" by (simp add: S_def)
  from assms have ne: "S \<noteq> {}" by (auto simp: S_def in_set_conv_nth)
  define m where "m = Max (sc ` S)"
  define T where "T = {j \<in> S. sc j = m}"
  have "m \<in> sc ` S" unfolding m_def using fin ne by (intro Max_in) auto
  then have Tne: "T \<noteq> {}" by (auto simp: T_def)
  have Tfin: "finite T" using fin by (simp add: T_def)
  define i where "i = Min T"
  have iT: "i \<in> T" unfolding i_def using Tfin Tne by (rule Min_in)
  have "best_at ratio name people i"
    unfolding best_at_def
  proof (intro conjI allI impI)
    show "i < length people" "titled (people ! i)" using iT by (auto simp: T_def S_def)
  next
    fix j assume j: "j < length people" "titled (people ! j)"
    then have jS: "j \<in> S" by (simp add: S_def)
    then have "sc j \<le> m" unfolding m_def using fin by (intro Max_ge) auto
    with iT show "score_of ratio name (people ! j) \<le> score_of ratio name (people ! i)"
      by (simp add: T_def sc_def)
    assume "score_of ratio name (people ! j) = score_of ratio name (people ! i)"
    with iT jS have "j \<in> T" by (simp add: T_def sc_def)
    then show "i \<le> j" unfolding i_def using Tfin by (intro Min_le)
  qed
  then show ?thesis ..
qed

lemma match_loop_Some:
  assumes "match_loop ratio name threshold people None 0 = Some p"
  shows "\<exists>i. best_at ratio name people i \<and> people ! i = p \<and>
             score_of ratio name p \<ge> threshold \<and> score_of ratio name p > 0"
proof -
  have "\<exists>q \<in> set people. titled q \<and> score_of ratio name q > 0 \<and> score_of ratio name q \<ge> threshold"
  proof (rule ccontr)
    assume "\<not> ?thesis"
    then have "\<forall>q \<in> set people. titled q \<longrightarrow>
        \<not> (score_of ratio name q > 0 \<and> score_of ratio name q \<ge> threshold)" by blast
    from match_loop_keeps[OF this] assms show False by simp
  qed
  then obtain q where q: "q \<in> set people" "titled q" "score_of ratio name q > 0"
    "score_of ratio name q \<ge> threshold" by blast
  then obtain i where i: "best_at ratio name people i" using best_at_exists by blast
  from q obtain j where "j < length people" "people ! j = q" by (auto simp: in_set_conv_nth)
  with i q have "score_of ratio name q \<le> score_of ratio name (people ! i)"
    by (auto simp: best_at_def)
  with q have gt: "score_of ratio name (people ! i) > 0"
    and ge: "score_of ratio name (people ! i) \<ge> threshold" by simp_all
  from match_loop_best[OF i gt ge] assms have "people ! i = p" by simp
  with i gt ge show ?thesis by auto
qed

subsection \<open>Loading\<close>

lemma fetch_pages_failed:
  "(\<forall>k < n. \<exists>r. post (query_data (cursor_at post c k)) = Json r \<and> has_more r) \<Longrightarrow>
   post (query_data (cursor_at post c n)) = RequestException \<Longrightarrow>
     fetch_pages post c acc = Some RequestException"
proof (induction n arbitrary: c acc)
  case 0
  then show ?case by (subst fetch_pages.simps) simp
next
  case (Suc n)
  from Suc.prems(1) obtain r where r: "post (query_data c) = Json r" "has_more r"
    by (auto dest: spec[of _ 0])
  then have nx: "next_request post c = next_cursor r" by (simp add: next_request_def)
  have "fetch_pages post (next_cursor r) (acc @ results r) = Some RequestException"
  proof (rule Suc.IH)
    show "\<forall>k < n. \<exists>r'. post (query_data (cursor_at post (next_cursor r) k)) = Json r' \<and> has_more r'"
      using Suc.prems(1) nx by (auto dest: spec[of _ "Suc k" for k])
    show "post (query_data (cursor_at post (next_cursor r) n)) = RequestException"
      using Suc.prems(2) nx by simp
  qed
  with r show ?case by (subst fetch_pages.simps) simp
qed

lemma fetch_pages_loaded:
  "(\<forall>k < n. \<exists>r. post (query_data (cursor_at post c k)) = Json r \<and> has_more r) \<Longrightarrow>
   post (query_data (cursor_at post c n)) = Json r \<Longrightarrow> \<not> has_more r \<Longrightarrow>
     fetch_pages post c acc =
       Some (Json (acc @ concat (map (\<lambda>k. results_of (post (query_data (cursor_at post c k))))
                                  [0 ..< Suc n])))"
proof (induction n arbitrary: c acc)
  case 0
  then show ?case by (subst fetch_pages.simps) (simp add: results_of_def)
next
  case (Suc n)
  from Suc.prems(1) obtain r0 where r0: "post (query_data c) = Json r0" "has_more r0"
    by (auto dest: spec[of _ 0])
  then have nx: "next_request post c = next_cursor r0" by (simp add: next_request_def)
  have "fetch_pages post (next_cursor r0) (acc @ results r0) =
      Some (Json ((acc @ results r0) @
        concat (map (\<lambda>k. results_of (post (query_data (cursor_at post (next_cursor r0) k))))
                 [0 ..< Suc n])))"
  proof (rule Suc.IH)
    show "\<forall>k < n. \<exists>r'. post (query_data (cursor_at post (next_cursor r0) k)) = Json r' \<and> has_more r'"
      using Suc.prems(1) nx by (auto dest: spec[of _ "Suc k" for k])
    show "post (query_data (cursor_at post (next_cursor r0) n)) = Json r"
      using Suc.prems(2) nx by simp
    show "\<not> has_more r" by fact
  qed
  moreover have "map (\<lambda>k. results_of (post (query_data (cursor_at post c k)))) [0 ..< Suc (Suc n)] =
      results r0 #
      map (\<lambda>k. results_of (post (query_data (cursor_at post (next_cursor r0) k)))) [0 ..< Suc n]"
    using r0 nx by (subst upt_rec) (simp add: map_Suc_upt[symmetric] results_of_def del: upt_Suc)
  ultimately show ?case using r0
    by (subst fetch_pages.simps) (simp del: upt_Suc)
qed

lemma more_pages_iff:
  "more_pages post n \<longleftrightarrow>
     (\<forall>k < n. \<exists>r. post (query_data (cursor_at post None k)) = Json r \<and> has_more r)"
proof -
  have "announces_more a \<longleftrightarrow> (\<exists>r. a = Json r \<and> has_more r)" for a
    by (cases a) (simp_all add: announces_more_def)
  then show ?thesis
    by (auto simp: more_pages_def list_all_iff answer_at_def)
qed

lemma listed_eq:
  "listed post n =
     concat (map (\<lambda>k. results_of (post (query_data (cursor_at post None k)))) [0 ..< n])"
  by (simp add: listed_def answer_at_def)

lemma reload_people_failed:
  assumes "more_pages post n" "answer_at post n = RequestException"
  shows "reload_people post st = Some ([], st)"
proof -
  have "fetch_pages post None [] = Some RequestException"
    by (rule fetch_pages_failed[of n])
       (use assms in \<open>simp_all add: more_pages_iff answer_at_def\<close>)
  then show ?thesis by (simp add: reload_people_def)
qed

lemma reload_people_loaded:
  assumes "more_pages post n" "answer_at post n = Json r" "\<not> has_more r"
  shows "reload_people post st =
           Some (listed post (Suc n), st\<lparr>people_cache := Some (listed post (Suc n))\<rparr>)"
proof -
  have "fetch_pages post None [] = Some (Json ([] @ listed post (Suc n)))"
    unfolding listed_eq
    by (rule fetch_pages_loaded[of n _ _ r])
       (use assms in \<open>simp_all add: more_pages_iff answer_at_def\<close>)
  then show ?thesis by (simp add: reload_people_def)
qed

lemma get_all_people_again:
  assumes "get_all_people post False st = Some (people, st')"
  shows "get_all_people post False st' = Some (people, st')"
proof (cases "people_cache st")
  case (Some cached)
  with assms show ?thesis by (auto simp: get_all_people_def)
next
  case None
  with assms have r: "reload_people post st = Some (people, st')"
    by (simp add: get_all_people_def)
  show ?thesis
  proof (cases "fetch_pages post None []")
    case None
    with r show ?thesis by (simp add: reload_people_def)
  next
    case (Some a)
    show ?thesis
    proof (cases a)
      case RequestException
      with Some r \<open>people_cache st = None\<close> show ?thesis
        by (auto simp: reload_people_def get_all_people_def)
    next
      case (Json all_people)
      with Some r show ?thesis
        by (auto simp: reload_people_def get_all_people_def)
    qed
  qed
qed

subsection \<open>Loading from the model of the store\<close>

lemma query_data_offset: "cursor_offset (query_data c) = cursor_offset c"
  by (cases c) (auto simp: query_data_def is_set_def cursor_offset_def)

lemma fetch_pages_store:
  assumes "available s"
  shows "fetch_pages (store_post s) c acc = Some (Json (acc @ drop (cursor_offset c) (pages s)))"
proof (induction "length (pages s) - cursor_offset c" arbitrary: c acc rule: less_induct)
  case less
  let ?off = "cursor_offset c"
  let ?r = "\<lparr>results = take (per_page s) (drop ?off (pages s)),
             has_more = ?off + per_page s < length (pages s),
             next_cursor = (if ?off + per_page s < length (pages s)
                            then Some (offset_cursor (?off + per_page s)) else None)\<rparr>"
  have post: "store_post s (query_data c) = Json ?r"
    using assms by (simp add: store_post_def query_data_offset Let_def)
  have pos: "0 < per_page s" by (simp add: per_page_def)
  show ?case
  proof (cases "?off + per_page s < length (pages s)")
    case True
    let ?c' = "Some (offset_cursor (?off + per_page s))"
    have off': "cursor_offset ?c' = ?off + per_page s"
      by (simp add: cursor_offset_def offset_cursor_def)
    have "length (pages s) - cursor_offset ?c' < length (pages s) - ?off"
      using True pos off' by simp
    from less[OF this, of "acc @ take (per_page s) (drop ?off (pages s))"]
    have "fetch_pages (store_post s) ?c' (acc @ take (per_page s) (drop ?off (pages s))) =
        Some (Json (acc @ take (per_page s) (drop ?off (pages s)) @
                    drop (per_page s) (drop ?off (pages s))))"
      by (simp add: off' add.commute)
    then have "fetch_pages (store_post s) ?c' (acc @ take (per_page s) (drop ?off (pages s))) =
        Some (Json (acc @ drop ?off (pages s)))"
      by (simp only: append_take_drop_id)
    with post True show ?thesis by (subst fetch_pages.simps) simp
  next
    case False
    then have "take (per_page s) (drop ?off (pages s)) = drop ?off (pages s)" by simp
    with post False show ?thesis by (subst fetch_pages.simps) simp
  qed
qed

lemma reload_people_store:
  assumes "available s"
  shows "reload_people (store_post s) st = Some (pages s, st\<lparr>people_cache := Some (pages s)\<rparr>)"
  using fetch_pages_store[OF assms, of None "[]"]
  by (simp add: reload_people_def cursor_offset_def)

lemma reload_people_unavailable:
  assumes "\<not> available s"
  shows "reload_people (store_post s) st = Some ([], st)"
proof -
  have "fetch_pages (store_post s) None [] = Some RequestException"
    using assms by (subst fetch_pages.simps) (simp add: store_post_def)
  then show ?thesis by (simp add: reload_people_def)
qed

subsection \<open>The example directories\<close>

lemma score_john: "score_of sequence_ratio ''Jon Smith'' john = 18 / 19"
  by code_simp

lemma score_joan: "score_of sequence_ratio ''Jon Smith'' joan = 18 / 19"
  by code_simp

lemma score_john_again: "score_of sequence_ratio ''Jon Smith'' john_again = 18 / 19"
  by code_simp

lemma score_a_b: "score_of sequence_ratio ''a'' \<lparr>p_id = ''id-5'', p_title = [''b'']\<rparr> = 0"
  by code_simp

lemma demo_best: "best_at sequence_ratio ''Jon Smith'' [untitled, john, joan, john_again] 1"
  by (simp add: best_at_def less_Suc_eq all_conj_distrib score_john score_joan score_john_again
        nth_Cons')
     (simp add: titled_def john_def untitled_def)

lemma second_fails_pages:
  "more_pages (store_second_fails first) 1"
  "answer_at (store_second_fails first) 1 = RequestException"
  by (simp_all add: more_pages_def announces_more_def answer_at_def store_second_fails_def
        query_data_def is_set_def next_request_def)


section \<open>Claims about the mention linker\<close>

text \<open>
  Claim C1 (round trip). Whenever \<open>create_rich_text_with_people_links\<close> or
  \<open>create_rich_text_with_entity_links\<close> returns, concatenating the \<open>content\<close> fields of the parts
  gives back the input text. Both functions return for every text when no name is the empty
  string. A person whose first title item is the empty string (the environment \<open>blank_env\<close>)
  gives the name list \<open>['']\<close>: the empty pattern wins at offset 0 with an empty match, the
  remaining text never shrinks and neither function returns, so that for this list of
  entities there are no parts that reproduce the text.
\<close>

theorem link_round_trip_unless_empty_name:
  "(create_rich_text_with_people_links env text = Some ps \<longrightarrow> parts_text ps = text) \<and>
   (create_rich_text_with_entity_links env text = Some ps \<longrightarrow> parts_text ps = text) \<and>
   ((\<forall>n \<in> set (people_names env). n \<noteq> []) \<longrightarrow>
      (\<exists>ps. create_rich_text_with_people_links env text = Some ps \<and> parts_text ps = text)) \<and>
   ((\<forall>e \<in> set (get_entities env). e_name e \<noteq> []) \<longrightarrow>
      (\<exists>ps. create_rich_text_with_entity_links env text = Some ps \<and> parts_text ps = text)) \<and>
   people_names blank_env = [''''] \<and>
   create_rich_text_with_people_links blank_env ''a'' = None \<and>
   create_rich_text_with_entity_links blank_env ''a'' = None"
  using blank_env_names blank_name_people blank_name_entity people_round_trip
    entity_round_trip people_links_round_trip entity_links_round_trip by blast

theorem link_round_trip_unless_empty_name_witness:
  "(\<exists>ps. create_rich_text_with_people_links (linker_env_of [''Sam'', ''Sam Lee''] [''Acme''])
            ''Call Sam Lee about the Acme project'' = Some ps \<and>
         parts_text ps = ''Call Sam Lee about the Acme project'') \<and>
   (\<exists>ps. create_rich_text_with_entity_links (linker_env_of [''Sam'', ''Sam Lee''] [''Acme''])
            ''Call Sam Lee about the Acme project'' = Some ps \<and>
         parts_text ps = ''Call Sam Lee about the Acme project'')"
proof -
  let ?env = "linker_env_of [''Sam'', ''Sam Lee''] [''Acme'']"
  have h1: "\<forall>n \<in> set (people_names ?env). n \<noteq> []"
    by (simp add: linker_env_of_def)
  have h2: "\<forall>e \<in> set (get_entities ?env). e_name e \<noteq> []"
    by (simp add: linker_env_of_def get_entities_def is_set_def person_entity_def project_entity_def)
  from h1 h2 link_round_trip_unless_empty_name[of ?env "''Call Sam Lee about the Acme project''"]
  show ?thesis by blast
qed

text \<open>
  Claim C2 (longest wins). On the text \<open>Call Sam Lee\<close> with the people \<open>Sam\<close> and \<open>Sam Lee\<close>,
  in either order, both linkers return the plain part \<open>Call \<close> followed by one part \<open>Sam Lee\<close>
  that carries the link of Sam Lee. In general the scan over the variations, sorted longest
  first, returns the variation whose leftmost match starts furthest left and, among those
  that start there, the one that comes first in the sorted list; it returns nothing when no
  variation occurs. The sorted list has non-increasing lengths.
\<close>

theorem link_longest_wins:
  "(is_set (notion_token env) \<and> is_set (people_db_id env) \<and>
    (people_names env = [''Sam'', ''Sam Lee''] \<or> people_names env = [''Sam Lee'', ''Sam'']) \<longrightarrow>
      create_rich_text_with_people_links env ''Call Sam Lee'' =
        Some [plain ''Call '', \<lparr>content = ''Sam Lee'', link = person_link env ''Sam Lee''\<rparr>]) \<and>
   (is_set (notion_token env) \<and> is_set (people_db_id env) \<and>
    (people_names env = [''Sam'', ''Sam Lee''] \<or> people_names env = [''Sam Lee'', ''Sam'']) \<and>
    (\<not> is_set (projects_db_id env) \<or> project_names env = []) \<longrightarrow>
      create_rich_text_with_entity_links env ''Call Sam Lee'' =
        Some [plain ''Call '', \<lparr>content = ''Sam Lee'', link = person_link env ''Sam Lee''\<rparr>]) \<and>
   (remaining \<noteq> [] \<and> wins (sort_longest_first fst vs) remaining i s \<longrightarrow>
      find_earliest (sort_longest_first fst vs) remaining =
        Some (match_at (sort_longest_first fst vs ! i) remaining s)) \<and>
   (remaining \<noteq> [] \<and> (\<forall>(v, e) \<in> set vs. re_search_ci v remaining = None) \<longrightarrow>
      find_earliest (sort_longest_first fst vs) remaining = None) \<and>
   sorted_wrt (\<lambda>a b. length (fst a) \<ge> length (fst b)) (sort_longest_first fst vs)"
proof (intro conjI impI)
  assume "remaining \<noteq> [] \<and> wins (sort_longest_first fst vs) remaining i s"
  then show "find_earliest (sort_longest_first fst vs) remaining =
        Some (match_at (sort_longest_first fst vs ! i) remaining s)"
    by (intro find_earliest_winner) simp_all
next
  assume "remaining \<noteq> [] \<and> (\<forall>(v, e) \<in> set vs. re_search_ci v remaining = None)"
  then show "find_earliest (sort_longest_first fst vs) remaining = None"
    by (intro find_earliest_none) (simp add: set_sort_longest_first)
qed (simp_all add: sam_people sam_entity sort_longest_first_sorted)

theorem link_longest_wins_witness:
  "is_set (notion_token (linker_env_of [''Sam'', ''Sam Lee''] [])) \<and>
   people_names (linker_env_of [''Sam'', ''Sam Lee''] []) = [''Sam'', ''Sam Lee''] \<and>
   create_rich_text_with_people_links (linker_env_of [''Sam'', ''Sam Lee''] []) ''Call Sam Lee'' =
     Some [plain ''Call '', \<lparr>content = ''Sam Lee'', link = Some ''person/Sam Lee''\<rparr>] \<and>
   create_rich_text_with_entity_links (linker_env_of [''Sam'', ''Sam Lee''] []) ''Call Sam Lee'' =
     Some [plain ''Call '', \<lparr>content = ''Sam Lee'', link = Some ''person/Sam Lee''\<rparr>] \<and>
   wins (sort_longest_first fst [(''Sam'', ''Sam''), (''Sam Lee'', ''Sam Lee'')]) ''Call Sam Lee'' 0 5 \<and>
   find_earliest (sort_longest_first fst [(''Sam'', ''Sam''), (''Sam Lee'', ''Sam Lee'')])
      ''Call Sam Lee'' =
     Some \<lparr>m_entity = ''Sam Lee'', m_start = 5, m_end = 12, matched_text = ''Sam Lee''\<rparr> \<and>
   find_earliest (sort_longest_first fst [(''Sam'', ''Sam''), (''Sam Lee'', ''Sam Lee'')]) ''Call'' = None"
proof -
  let ?env = "linker_env_of [''Sam'', ''Sam Lee''] []"
  let ?vs = "[(''Sam'', ''Sam''), (''Sam Lee'', ''Sam Lee'')]"
  have srt: "sort_longest_first fst ?vs = [(''Sam Lee'', ''Sam Lee''), (''Sam'', ''Sam'')]"
    by (simp add: sort_longest_first_def)
  have h1: "is_set (notion_token ?env) \<and> is_set (people_db_id ?env) \<and>
      (people_names ?env = [''Sam'', ''Sam Lee''] \<or> people_names ?env = [''Sam Lee'', ''Sam''])"
    by (simp add: linker_env_of_def is_set_def)
  have h2: "\<not> is_set (projects_db_id ?env) \<or> project_names ?env = []"
    by (simp add: linker_env_of_def)
  have h3: "wins (sort_longest_first fst ?vs) ''Call Sam Lee'' 0 5"
    by (simp add: srt wins_sam)
  have h4: "\<forall>(v, e) \<in> set ?vs. re_search_ci v ''Call'' = None"
    by (simp add: search_eval)
  note thm1 = link_longest_wins[of ?env "''Call Sam Lee''" ?vs 0 5]
  note thm2 = link_longest_wins[of ?env "''Call''" ?vs 0 5]
  from thm1 h1 h2 h3 thm2 h4 show ?thesis
    by (simp add: linker_env_of_def srt match_at_def)
qed

text \<open>
  Claim C7, as stated, fails: \<open>create_rich_text_with_entity_links\<close> gives the person \<open>Sam\<close> the
  variations \<open>Sam\<close> and \<open>Sam project\<close>, and links the text \<open>Sam project\<close> as a whole to the
  page of the person.
\<close>

theorem person_variations_include_project_form:
  "get_entities (linker_env_of [''Sam''] []) = [person_entity ''Sam''] \<and>
   variations (person_entity ''Sam'') = [''Sam'', ''Sam project''] \<and>
   variations (person_entity ''Sam'') \<noteq> [''Sam''] \<and>
   create_rich_text_with_entity_links (linker_env_of [''Sam''] []) ''Sam project'' =
     Some [\<lparr>content = ''Sam project'', link = Some ''person/Sam''\<rparr>]"
proof -
  let ?e = "person_entity ''Sam''"
  let ?vs = "[(''Sam project'', ?e), (''Sam'', ?e)]"
  have ents: "get_entities (linker_env_of [''Sam''] []) = [?e]"
    by (simp add: get_entities_def linker_env_of_def is_set_def)
  have srt: "sort_longest_first fst (all_variations [?e]) = ?vs"
    by (simp add: sort_longest_first_def all_variations_def person_entity_def)
  have fe: "find_earliest ?vs ''Sam project'' = Some (match_at (''Sam project'', ?e) ''Sam project'' 0)"
    by (simp add: find_earliest_def match_at_def search_eval)
  have el: "entity_link (linker_env_of [''Sam''] []) ?e = Some ''person/Sam''"
    by (simp add: entity_link_def person_entity_def linker_env_of_def)
  have "link_loop (entity_link (linker_env_of [''Sam''] [])) ?vs ''Sam project'' [] =
      Some [\<lparr>content = ''Sam project'', link = Some ''person/Sam''\<rparr>]"
    by (simp add: link_loop_step[OF _ fe] match_parts_simp match_at_def link_loop_done el)
  then have "create_rich_text_with_entity_links (linker_env_of [''Sam''] []) ''Sam project'' =
     Some [\<lparr>content = ''Sam project'', link = Some ''person/Sam''\<rparr>]"
    by (simp add: create_rich_text_with_entity_links_def ents srt)
       (simp add: linker_env_of_def is_set_def)
  with ents show ?thesis by (simp add: person_entity_def)
qed

text \<open>
  Claim C7, amended. Every entity that \<open>create_rich_text_with_entity_links\<close> builds for a person
  has the variations \<open>name\<close> and \<open>name project\<close>; every entity built for a project has
  \<open>name\<close>, \<open>name project\<close> and \<open>the name project\<close>. The entities are the people of the people
  database followed by the projects of the projects database.
\<close>

theorem entity_variations:
  "(e \<in> set (get_entities env) \<longrightarrow>
      variations e =
        (case e_type e of
           Person \<Rightarrow> [e_name e, e_name e @ '' project'']
         | Project \<Rightarrow> [e_name e, e_name e @ '' project'', ''the '' @ e_name e @ '' project''])) \<and>
   get_entities env =
     (if is_set (people_db_id env) then map person_entity (people_names env) else []) @
     (if is_set (projects_db_id env) then map project_entity (project_names env) else []) \<and>
   e_type (person_entity n) = Person \<and> e_name (person_entity n) = n \<and>
   e_type (project_entity n) = Project \<and> e_name (project_entity n) = n"
  by (auto simp: get_entities_def person_entity_def project_entity_def split: if_splits)

theorem entity_variations_witness:
  "person_entity ''Sam'' \<in> set (get_entities (linker_env_of [''Sam''] [''Acme''])) \<and>
   variations (person_entity ''Sam'') = [''Sam'', ''Sam project''] \<and>
   project_entity ''Acme'' \<in> set (get_entities (linker_env_of [''Sam''] [''Acme''])) \<and>
   variations (project_entity ''Acme'') = [''Acme'', ''Acme project'', ''the Acme project'']"
proof -
  let ?env = "linker_env_of [''Sam''] [''Acme'']"
  have h1: "person_entity ''Sam'' \<in> set (get_entities ?env)"
    and h2: "project_entity ''Acme'' \<in> set (get_entities ?env)"
    by (simp_all add: get_entities_def linker_env_of_def is_set_def)
  from h1 h2 entity_variations[of "person_entity ''Sam''" ?env "''Sam''"]
    entity_variations[of "project_entity ''Acme''" ?env "''Acme''"]
  show ?thesis by simp
qed



section \<open>Claims about the name extraction and the empty input\<close>

text \<open>
  Claim C9 (extraction filter). On the text
  \<open>Meeting with Gaia Team. Attendees: Aaron, Darren, Susanna\<close> the extractor returns exactly the
  names \<open>Aaron\<close>, \<open>Darren\<close> and \<open>Susanna\<close>: the three are included, \<open>Team\<close> and \<open>Meeting\<close> are
  not.
\<close>

theorem extract_demo_text:
  "extract_person_names ''Meeting with Gaia Team. Attendees: Aaron, Darren, Susanna'' =
     {''Aaron'', ''Darren'', ''Susanna''} \<and>
   ''Aaron'' \<in> extract_person_names ''Meeting with Gaia Team. Attendees: Aaron, Darren, Susanna'' \<and>
   ''Darren'' \<in> extract_person_names ''Meeting with Gaia Team. Attendees: Aaron, Darren, Susanna'' \<and>
   ''Susanna'' \<in> extract_person_names ''Meeting with Gaia Team. Attendees: Aaron, Darren, Susanna'' \<and>
   ''Team'' \<notin> extract_person_names ''Meeting with Gaia Team. Attendees: Aaron, Darren, Susanna'' \<and>
   ''Meeting'' \<notin> extract_person_names ''Meeting with Gaia Team. Attendees: Aaron, Darren, Susanna''"
proof -
  have "extract_person_names demo_text = {''Aaron'', ''Darren'', ''Susanna''}"
    by (simp add: extract_person_names_def demo_speaker_names demo_attendees demo_speaker_pattern)
  then show ?thesis by (simp add: demo_text_def)
qed

text \<open>
  Claim C8, as stated, fails for the linker: with no entity at all, both linkers return the
  text as one plain part before the loop is reached, so the empty text gives one part with
  empty content and not the empty list.
\<close>

theorem link_empty_text_single_part:
  "create_rich_text_with_people_links (linker_env_of [] []) '''' = Some [plain ''''] \<and>
   create_rich_text_with_entity_links (linker_env_of [] []) '''' = Some [plain ''''] \<and>
   create_rich_text_with_people_links (linker_env_of [] []) '''' \<noteq> Some [] \<and>
   create_rich_text_with_entity_links (linker_env_of [] []) '''' \<noteq> Some []"
  by (simp add: create_rich_text_with_people_links_def create_rich_text_with_entity_links_def
        linker_env_of_def get_entities_def)

text \<open>
  Claim C8, amended. The extractor returns no name for the empty text. With an empty list of
  entities, each linker returns for the empty text a single plain part with empty content,
  which spells the empty text. Both return: neither raises.
\<close>

theorem empty_input:
  "extract_person_names '''' = {} \<and>
   (people_names env = [] \<longrightarrow>
      create_rich_text_with_people_links env '''' = Some [plain ''''] \<and>
      parts_text [plain ''''] = '''') \<and>
   (get_entities env = [] \<longrightarrow>
      create_rich_text_with_entity_links env '''' = Some [plain ''''] \<and>
      parts_text [plain ''''] = '''')"
proof (intro conjI impI)
  show "extract_person_names '''' = {}" by (rule extract_empty)
next
  assume "people_names env = []"
  then show "create_rich_text_with_people_links env '''' = Some [plain '''']"
    by (simp add: create_rich_text_with_people_links_def)
next
  assume "get_entities env = []"
  then show "create_rich_text_with_entity_links env '''' = Some [plain '''']"
    by (simp add: create_rich_text_with_entity_links_def)
qed (simp_all add: parts_text_def plain_def)

theorem empty_input_witness:
  "extract_person_names '''' = {} \<and>
   people_names (linker_env_of [] []) = [] \<and>
   get_entities (linker_env_of [] []) = [] \<and>
   create_rich_text_with_people_links (linker_env_of [] []) '''' = Some [plain ''''] \<and>
   create_rich_text_with_entity_links (linker_env_of [] []) '''' = Some [plain '''']"
proof -
  have h1: "people_names (linker_env_of [] []) = []"
    and h2: "get_entities (linker_env_of [] []) = []"
    by (simp_all add: linker_env_of_def get_entities_def)
  from h1 h2 empty_input[of "linker_env_of [] []"] show ?thesis by simp
qed


section \<open>Claims about the resolver and the directory cache\<close>

text \<open>
  Claim C3, as stated, fails: with the directory holding the one person \<open>b\<close>, the name \<open>a\<close>
  and the threshold 0, the maximum score is 0, which reaches the threshold, and
  \<open>find_matching_person\<close> returns nothing, because a score replaces \<open>best_score = 0.0\<close> only
  when it is strictly greater.
\<close>

theorem find_matching_person_zero_score:
  "find_matching_person sequence_ratio store_down ''a'' 0
     (manager_with (Some [\<lparr>p_id = ''id-5'', p_title = [''b'']\<rparr>])) =
     Some (None, manager_with (Some [\<lparr>p_id = ''id-5'', p_title = [''b'']\<rparr>])) \<and>
   score_of sequence_ratio ''a'' \<lparr>p_id = ''id-5'', p_title = [''b'']\<rparr> = 0 \<and>
   (0::real) \<le> score_of sequence_ratio ''a'' \<lparr>p_id = ''id-5'', p_title = [''b'']\<rparr>"
proof -
  have "sequence_ratio (lower ''a'') (lower ''b'') = 0"
    using score_a_b by (simp add: score_of_def)
  then have "match_loop sequence_ratio ''a'' 0 [\<lparr>p_id = ''id-5'', p_title = [''b'']\<rparr>] None 0 = None"
    by simp
  then show ?thesis
    by (simp add: find_matching_person_def get_all_people_def manager_with_def score_a_b)
qed

text \<open>
  Claim C3, amended. Let \<open>people\<close> be the directory that \<open>get_all_people\<close> returns, and let the
  score of a person with a title be the ratio of the lower-cased name and the lower-cased
  first title item; people without a title are skipped. \<open>find_matching_person\<close> returns the
  person with the maximum score, the earliest one in directory order among those that reach
  it, if and only if that maximum is at least the threshold and greater than 0; otherwise it
  returns nothing. A person with the maximum score exists as soon as one person has a title.
  The statement holds for every ratio function.
\<close>

theorem find_matching_person_best:
  "get_all_people post False st = Some (people, st') \<longrightarrow>
     (best_at ratio name people i \<and> score_of ratio name (people ! i) \<ge> threshold \<and>
      score_of ratio name (people ! i) > 0 \<longrightarrow>
        find_matching_person ratio post name threshold st = Some (Some (people ! i), st')) \<and>
     ((\<forall>p \<in> set people. titled p \<longrightarrow>
          score_of ratio name p < threshold \<or> score_of ratio name p \<le> 0) \<longrightarrow>
        find_matching_person ratio post name threshold st = Some (None, st')) \<and>
     ((\<exists>p \<in> set people. titled p) \<longrightarrow> (\<exists>i. best_at ratio name people i))"
proof (intro impI conjI)
  assume g: "get_all_people post False st = Some (people, st')"
  {
    assume "best_at ratio name people i \<and> score_of ratio name (people ! i) \<ge> threshold \<and>
      score_of ratio name (people ! i) > 0"
    then have "match_loop ratio name threshold people None 0 = Some (people ! i)"
      by (intro match_loop_best) simp_all
    with g show "find_matching_person ratio post name threshold st = Some (Some (people ! i), st')"
      by (simp add: find_matching_person_def)
  }
  {
    assume "\<forall>p \<in> set people. titled p \<longrightarrow>
          score_of ratio name p < threshold \<or> score_of ratio name p \<le> 0"
    then have "match_loop ratio name threshold people None 0 = None"
      by (intro match_loop_keeps) auto
    with g show "find_matching_person ratio post name threshold st = Some (None, st')"
      by (simp add: find_matching_person_def)
  }
  {
    assume "\<exists>p \<in> set people. titled p"
    then show "\<exists>i. best_at ratio name people i" by (rule best_at_exists)
  }
qed

theorem find_matching_person_best_witness:
  "get_all_people store_down False (manager_with (Some [untitled, john, joan, john_again])) =
     Some ([untitled, john, joan, john_again],
           manager_with (Some [untitled, john, joan, john_again])) \<and>
   best_at sequence_ratio ''Jon Smith'' [untitled, john, joan, john_again] 1 \<and>
   score_of sequence_ratio ''Jon Smith'' john = 18 / 19 \<and>
   score_of sequence_ratio ''Jon Smith'' joan = 18 / 19 \<and>
   find_matching_person sequence_ratio store_down ''Jon Smith'' 0.8
       (manager_with (Some [untitled, john, joan, john_again])) =
     Some (Some john, manager_with (Some [untitled, john, joan, john_again])) \<and>
   find_matching_person sequence_ratio store_down ''Jon Smith'' 0.99
       (manager_with (Some [untitled, john, joan, john_again])) =
     Some (None, manager_with (Some [untitled, john, joan, john_again]))"
proof -
  let ?people = "[untitled, john, joan, john_again]"
  let ?st = "manager_with (Some ?people)"
  have g: "get_all_people store_down False ?st = Some (?people, ?st)"
    by (simp add: get_all_people_def manager_with_def)
  have sc: "score_of sequence_ratio ''Jon Smith'' (?people ! 1) = 18 / 19"
    by (simp add: score_john)
  have low: "\<forall>p \<in> set ?people. titled p \<longrightarrow>
      score_of sequence_ratio ''Jon Smith'' p < 0.99 \<or> score_of sequence_ratio ''Jon Smith'' p \<le> 0"
    by (simp add: score_john score_joan score_john_again titled_def untitled_def)
  from find_matching_person_best[of store_down ?st ?people ?st sequence_ratio "''Jon Smith''" 1 "0.8"]
    g demo_best sc
  have c1: "find_matching_person sequence_ratio store_down ''Jon Smith'' 0.8 ?st =
      Some (Some john, ?st)" by simp
  from find_matching_person_best[of store_down ?st ?people ?st sequence_ratio "''Jon Smith''" 1 "0.99"]
    g low
  have c2: "find_matching_person sequence_ratio store_down ''Jon Smith'' 0.99 ?st =
      Some (None, ?st)" by blast
  from g demo_best c1 c2 show ?thesis by (simp add: score_john score_joan)
qed

text \<open>
  Claim C4 (threshold monotonicity). If \<open>find_matching_person\<close> returns a person at the
  threshold \<open>t\<close>, it returns the same person at every threshold \<open>t' \<le> t\<close>, from the same state
  and from the state the first call left. At a threshold strictly above the score of every
  person of the directory it returns nothing.
\<close>

theorem find_matching_person_threshold:
  "(find_matching_person ratio post name t st = Some (Some p, st') \<and> t' \<le> t \<longrightarrow>
      find_matching_person ratio post name t' st = Some (Some p, st') \<and>
      find_matching_person ratio post name t' st' = Some (Some p, st')) \<and>
   (get_all_people post False st = Some (people, st') \<and>
    (\<forall>q \<in> set people. titled q \<longrightarrow> score_of ratio name q < t) \<longrightarrow>
      find_matching_person ratio post name t st = Some (None, st'))"
proof (intro conjI impI)
  assume a: "find_matching_person ratio post name t st = Some (Some p, st') \<and> t' \<le> t"
  then obtain people where g: "get_all_people post False st = Some (people, st')"
    and m: "match_loop ratio name t people None 0 = Some p"
    by (auto simp: find_matching_person_def split: option.splits)
  from match_loop_Some[OF m] obtain i where i: "best_at ratio name people i" "people ! i = p"
    "score_of ratio name p \<ge> t" "score_of ratio name p > 0" by blast
  with a have "match_loop ratio name t' people None 0 = Some (people ! i)"
    by (intro match_loop_best) simp_all
  with i g get_all_people_again[OF g]
  show "find_matching_person ratio post name t' st = Some (Some p, st')"
    "find_matching_person ratio post name t' st' = Some (Some p, st')"
    by (simp_all add: find_matching_person_def)
next
  assume a: "get_all_people post False st = Some (people, st') \<and>
    (\<forall>q \<in> set people. titled q \<longrightarrow> score_of ratio name q < t)"
  then have "match_loop ratio name t people None 0 = None"
    by (intro match_loop_keeps) auto
  with a show "find_matching_person ratio post name t st = Some (None, st')"
    by (simp add: find_matching_person_def)
qed

theorem find_matching_person_threshold_witness:
  "find_matching_person sequence_ratio store_down ''Jon Smith'' 0.8 (manager_with (Some [john])) =
     Some (Some john, manager_with (Some [john])) \<and>
   find_matching_person sequence_ratio store_down ''Jon Smith'' 0.5 (manager_with (Some [john])) =
     Some (Some john, manager_with (Some [john])) \<and>
   find_matching_person sequence_ratio store_down ''Jon Smith'' 0.99 (manager_with (Some [john])) =
     Some (None, manager_with (Some [john]))"
proof -
  let ?st = "manager_with (Some [john])"
  have g: "get_all_people store_down False ?st = Some ([john], ?st)"
    by (simp add: get_all_people_def manager_with_def)
  have "sequence_ratio (lower ''Jon Smith'') (lower ''John Smith'') = 18 / 19"
    using score_john by (simp add: score_of_def john_def)
  then have "match_loop sequence_ratio ''Jon Smith'' 0.8 [john] None 0 = Some john"
    by (simp add: john_def)
  with g have h1: "find_matching_person sequence_ratio store_down ''Jon Smith'' 0.8 ?st =
      Some (Some john, ?st)"
    by (simp add: find_matching_person_def)
  have h2: "\<forall>q \<in> set [john]. titled q \<longrightarrow> score_of sequence_ratio ''Jon Smith'' q < 0.99"
    by (simp add: score_john)
  from find_matching_person_threshold[of sequence_ratio store_down "''Jon Smith''" "0.8" ?st john ?st
      "0.5" "[john]"] h1
  have c1: "find_matching_person sequence_ratio store_down ''Jon Smith'' 0.5 ?st =
      Some (Some john, ?st)" by simp
  from find_matching_person_threshold[of sequence_ratio store_down "''Jon Smith''" "0.99" ?st john ?st
      "0.5" "[john]"] g h2
  have c2: "find_matching_person sequence_ratio store_down ''Jon Smith'' 0.99 ?st =
      Some (None, ?st)" by blast
  from h1 c1 c2 show ?thesis by simp
qed

text \<open>
  Claim C5, as stated, fails: when the store is down \<open>get_all_people\<close> raises no error. It
  returns the empty list, which is also what it returns for a store whose directory is
  empty.
\<close>

theorem get_all_people_swallows_failure:
  "get_all_people store_down True (manager_with (Some [joan])) =
     Some ([], manager_with (Some [joan])) \<and>
   get_all_people store_empty True (manager_with (Some [joan])) =
     Some ([], manager_with (Some []))"
proof -
  have "fetch_pages store_down None [] = Some RequestException"
    by (subst fetch_pages.simps) (simp add: store_down_def)
  moreover have "fetch_pages store_empty None [] = Some (Json [])"
    by (subst fetch_pages.simps) (simp add: store_empty_def)
  ultimately show ?thesis
    by (simp add: get_all_people_def reload_people_def manager_with_def)
qed

text \<open>
  Claim C5, amended. If a page request of the load fails (the store announced a further page
  in each of its first \<open>n\<close> answers and request number \<open>n\<close> raises), \<open>get_all_people\<close> returns the
  empty list and leaves the state as it was: the cached people are unchanged, and nothing of
  the pages already read is stored.
\<close>

theorem get_all_people_failure:
  "(people_cache st = None \<or> force_refresh) \<and> more_pages post n \<and>
   answer_at post n = RequestException \<longrightarrow>
     get_all_people post force_refresh st = Some ([], st)"
proof (intro impI)
  assume a: "(people_cache st = None \<or> force_refresh) \<and> more_pages post n \<and>
    answer_at post n = RequestException"
  then have reload: "reload_people post st = Some ([], st)"
    by (intro reload_people_failed[of post n]) simp_all
  show "get_all_people post force_refresh st = Some ([], st)"
  proof (cases "people_cache st")
    case None
    with reload show ?thesis by (simp add: get_all_people_def)
  next
    case (Some cached)
    with a have force_refresh by simp
    with Some reload show ?thesis by (simp add: get_all_people_def)
  qed
qed

theorem get_all_people_failure_witness:
  "more_pages (store_second_fails [john]) 1 \<and>
   answer_at (store_second_fails [john]) 1 = RequestException \<and>
   people_cache (manager_with (Some [joan])) = Some [joan] \<and>
   get_all_people (store_second_fails [john]) True (manager_with (Some [joan])) =
     Some ([], manager_with (Some [joan])) \<and>
   get_all_people (store_second_fails [john]) False (manager_with None) =
     Some ([], manager_with None)"
proof -
  note p = second_fails_pages[of "[john]"]
  from get_all_people_failure[of "manager_with (Some [joan])" True "store_second_fails [john]" 1] p
  have c1: "get_all_people (store_second_fails [john]) True (manager_with (Some [joan])) =
     Some ([], manager_with (Some [joan]))" by simp
  from get_all_people_failure[of "manager_with None" False "store_second_fails [john]" 1] p
  have c2: "get_all_people (store_second_fails [john]) False (manager_with None) =
     Some ([], manager_with None)" by (simp add: manager_with_def)
  from p c1 c2 show ?thesis by (simp add: manager_with_def)
qed

text \<open>
  Claim C6, as stated, fails: after a successful \<open>create_person\<close> the cache is \<open>None\<close> and the
  next \<open>get_all_people\<close> loads the directory again, but when that load fails it returns the
  empty list, which does not include the new person.
\<close>

theorem create_person_reload_can_fail:
  "create_person store_creates ''New Person'' None (manager_with (Some [john])) =
     (Some new_person, manager_with None) \<and>
   get_all_people store_down False (manager_with None) = Some ([], manager_with None) \<and>
   new_person \<notin> set ([] :: person list)"
proof -
  have "fetch_pages store_down None [] = Some RequestException"
    by (subst fetch_pages.simps) (simp add: store_down_def)
  then have "get_all_people store_down False (manager_with None) = Some ([], manager_with None)"
    by (simp add: get_all_people_def reload_people_def manager_with_def)
  then show ?thesis
    by (simp add: create_person_def store_creates_def new_person_def manager_with_def)
qed

text \<open>
  Claim C6, amended. When \<open>create_person\<close> succeeds the cache is \<open>None\<close> afterwards and the store
  holds the new page. The next \<open>get_all_people\<close> then loads every page again, whatever the
  cache held before: when the store answers, the result is the store's full listing, which
  includes the new person; when the store is not available, or any page request fails, the
  result is the empty list. When the creation fails the state and the store are unchanged.
  Without the invalidation a cached list is returned as it is.
\<close>

theorem create_person_then_reload:
  "(create_person_in create name props (st, s) = (Some p, st1, s1) \<longrightarrow>
      people_cache st1 = None \<and> pages s1 = pages s @ [p] \<and>
      (available s1 \<longrightarrow>
         get_all_people (store_post s1) False st1 =
           Some (pages s @ [p], st1\<lparr>people_cache := Some (pages s @ [p])\<rparr>) \<and>
         (\<exists>ps st2. get_all_people (store_post s1) False st1 = Some (ps, st2) \<and> p \<in> set ps)) \<and>
      (\<not> available s1 \<longrightarrow> get_all_people (store_post s1) False st1 = Some ([], st1)) \<and>
      (more_pages post n \<and> answer_at post n = RequestException \<longrightarrow>
         get_all_people post False st1 = Some ([], st1))) \<and>
   (create_person_in create name props (st, s) = (None, st1, s1) \<longrightarrow> st1 = st \<and> s1 = s) \<and>
   (people_cache st = Some cached \<longrightarrow> get_all_people post False st = Some (cached, st))"
proof (intro conjI impI)
  assume c: "create_person_in create name props (st, s) = (Some p, st1, s1)"
  then obtain page where cp: "create_person create name props st = (Some page, st1)"
    and eq: "page = p" "s1 = s\<lparr>pages := pages s @ [page]\<rparr>"
    by (auto simp: create_person_in_def split: prod.splits option.splits)
  from cp show none: "people_cache st1 = None"
    by (auto simp: create_person_def split: response.splits)
  from eq show ps: "pages s1 = pages s @ [p]" by simp
  {
    assume a: "available s1"
    from reload_people_store[OF a, of st1] none ps
    show g: "get_all_people (store_post s1) False st1 =
           Some (pages s @ [p], st1\<lparr>people_cache := Some (pages s @ [p])\<rparr>)"
      by (simp add: get_all_people_def)
    then show "\<exists>ps st2. get_all_people (store_post s1) False st1 = Some (ps, st2) \<and> p \<in> set ps"
      by simp
  }
  {
    assume "\<not> available s1"
    from reload_people_unavailable[OF this, of st1] none
    show "get_all_people (store_post s1) False st1 = Some ([], st1)"
      by (simp add: get_all_people_def)
  }
  {
    assume "more_pages post n \<and> answer_at post n = RequestException"
    then have "reload_people post st1 = Some ([], st1)"
      by (intro reload_people_failed[of post n]) simp_all
    with none show "get_all_people post False st1 = Some ([], st1)"
      by (simp add: get_all_people_def)
  }
next
  assume "create_person_in create name props (st, s) = (None, st1, s1)"
  then show "st1 = st" "s1 = s"
    by (auto simp: create_person_in_def create_person_def split: prod.splits option.splits response.splits)
next
  assume "people_cache st = Some cached"
  then show "get_all_people post False st = Some (cached, st)"
    by (simp add: get_all_people_def)
qed

theorem create_person_then_reload_witness:
  "create_person_in store_creates ''New Person'' None (manager_with (Some [john]), john_store) =
     (Some new_person, manager_with None, john_store\<lparr>pages := [john, new_person]\<rparr>) \<and>
   get_all_people (store_post (john_store\<lparr>pages := [john, new_person]\<rparr>)) False
       (manager_with (Some [john])) =
     Some ([john], manager_with (Some [john])) \<and>
   get_all_people (store_post (john_store\<lparr>pages := [john, new_person]\<rparr>)) False
       (manager_with None) =
     Some ([john, new_person], manager_with (Some [john, new_person])) \<and>
   get_all_people (store_post (john_store\<lparr>pages := [john, new_person], available := False\<rparr>)) False
       (manager_with None) =
     Some ([], manager_with None) \<and>
   create_person_in store_rejects ''New Person'' None (manager_with (Some [john]), john_store) =
     (None, manager_with (Some [john]), john_store)"
proof -
  let ?st = "manager_with (Some [john])"
  let ?s1 = "john_store\<lparr>pages := [john, new_person]\<rparr>"
  let ?s2 = "john_store\<lparr>pages := [john, new_person], available := False\<rparr>"
  have c: "create_person_in store_creates ''New Person'' None (?st, john_store) =
      (Some new_person, manager_with None, ?s1)"
    by (simp add: create_person_in_def create_person_def store_creates_def new_person_def
          manager_with_def john_store_def)
  have c2: "create_person_in store_creates ''New Person'' None
        (?st, john_store\<lparr>available := False\<rparr>) = (Some new_person, manager_with None, ?s2)"
    by (simp add: create_person_in_def create_person_def store_creates_def new_person_def
          manager_with_def john_store_def)
  have f: "create_person_in store_rejects ''New Person'' None (?st, john_store) =
      (None, ?st, john_store)"
    by (simp add: create_person_in_def create_person_def store_rejects_def)
  have av: "available ?s1" "\<not> available ?s2" "pages john_store = [john]"
    by (simp_all add: john_store_def)
  have pc: "people_cache ?st = Some [john]" by (simp add: manager_with_def)
  note t1 = create_person_then_reload[of store_creates "''New Person''" None ?st john_store
      new_person "manager_with None" ?s1 "store_post ?s1" 0 "[john]"]
  note t2 = create_person_then_reload[of store_creates "''New Person''" None ?st
      "john_store\<lparr>available := False\<rparr>" new_person "manager_with None" ?s2 "store_post ?s2" 0 "[john]"]
  from t1 c av have g: "get_all_people (store_post ?s1) False (manager_with None) =
      Some ([john, new_person], manager_with (Some [john, new_person]))"
    by (simp add: manager_with_def)
  from t1 pc have old: "get_all_people (store_post ?s1) False ?st = Some ([john], ?st)"
    by blast
  from t2 c2 av have d: "get_all_people (store_post ?s2) False (manager_with None) =
      Some ([], manager_with None)"
    by simp
  from c f g old d show ?thesis by simp
qed


end
